theory Spec2Isabelle
  imports Main "HOL-Library.Word"
begin

section \<open>The srdir output module: data model\<close>

text \<open>
  A shallow embedding of \<^verbatim>\<open>src/output/srdir.c\<close>. Every function of the C file is a
  HOL function of the same name that takes the module's context (\<^verbatim>\<open>struct out_context\<close>)
  and the outside world, and returns the C return code with the updated context and
  world. The context is returned on error paths too, with exactly the fields the C code
  had assigned before it returned.

  Integer types: \<^verbatim>\<open>guint\<close> and \<^verbatim>\<open>uint32_t\<close> are \<open>32 word\<close>, \<^verbatim>\<open>uint64_t\<close> is \<open>64 word\<close>.
  \<^verbatim>\<open>size_t\<close> values are natural numbers: every \<^verbatim>\<open>size_t\<close> the module computes is
  bounded by an input length, by \<^verbatim>\<open>CHUNK_SIZE\<close> or by a \<^verbatim>\<open>guint\<close> plus a small constant,
  so on a target with a 64 bit \<^verbatim>\<open>size_t\<close> none of them wraps. A C \<^verbatim>\<open>float\<close> is its 32 bit
  pattern: the module copies floats and never computes with them.
\<close>

type_synonym byte = "8 word"
type_synonym cfloat = "32 word"

datatype sr_ret = SR_OK | SR_ERR | SR_ERR_MALLOC | SR_ERR_ARG

definition CHUNK_SIZE :: nat where
  "CHUNK_SIZE = 4 * 1024 * 1024"

definition sizeof_float :: nat where
  "sizeof_float = 4"

datatype channeltype = SR_CHANNEL_LOGIC | SR_CHANNEL_ANALOG

record sr_channel =
  ch_index :: int
  ch_type :: channeltype
  ch_enabled :: bool
  ch_name :: string

text \<open>
  The device instance \<^verbatim>\<open>o->sdi\<close>: its channel list, and what the driver answers to
  \<^verbatim>\<open>sr_config_get(SR_CONF_SAMPLERATE)\<close> (\<open>None\<close> when the call does not return
  \<^verbatim>\<open>SR_OK\<close>).
\<close>

record sr_dev_inst =
  channels :: "sr_channel list"
  conf_samplerate :: "64 word option"

text \<open>
  \<^verbatim>\<open>struct logic_buff\<close> and \<^verbatim>\<open>struct analog_buff\<close>. The sample array is a store from
  offsets to values: \<^verbatim>\<open>memcpy\<close> overwrites a range of it, a chunk write reads a prefix
  of it, and what lies behind the fill level stays as it was.
\<close>

record logic_buffer =
  lb_unit_size :: nat
  lb_alloc_size :: nat
  lb_samples :: "nat \<Rightarrow> byte"
  lb_fill_size :: nat
  lb_next_chunk_num :: "32 word"

record analog_buffer =
  ab_alloc_size :: nat
  ab_samples :: "nat \<Rightarrow> cfloat"
  ab_fill_size :: nat
  ab_next_chunk_num :: "32 word"

record out_context =
  dir_created :: bool
  samplerate :: "64 word"
  filename :: string
  first_analog_index :: nat
  analog_ch_count :: nat
  analog_index_map :: "int list"
  logic_buff :: logic_buffer
  analog_buff :: "analog_buffer list"

subsection \<open>The outside world\<close>

text \<open>
  File names are the values that \<^verbatim>\<open>g_strdup_printf\<close> formats: \<^verbatim>\<open>"logic-1-%u"\<close> is
  \<open>File_logic n\<close> and \<^verbatim>\<open>"analog-1-%zu-%u"\<close> is \<open>File_analog ch n\<close>. The key file
  (\<^verbatim>\<open>GKeyFile\<close>) is an association list in which setting a key twice replaces the
  value; its serialisation is left to GLib.
\<close>

datatype fname = File_version | File_metadata | File_logic "32 word" | File_analog nat "32 word"

datatype meta_key =
  Key_sigrok_version | Key_capturefile | Key_total_probes | Key_samplerate
  | Key_total_analog | Key_probe nat | Key_analog nat | Key_unitsize

datatype meta_val = Val_package_version | Val_str string | Val_int int | Val_rate "64 word"

type_synonym keyfile = "(meta_key \<times> meta_val) list"

datatype content = Bytes "byte list" | Floats "cfloat list" | Keyfile keyfile

datatype io_event =
  Ev_mkdir string bool
  | Ev_chdir string bool
  | Ev_fopen fname bool
  | Ev_fwrite fname content bool

text \<open>
  The world holds the outcomes of the fallible library calls still to come (\<open>script\<close>,
  one boolean per call, \<open>True\<close> for success; an exhausted script means success) and the
  file system calls made so far with their outcomes (\<open>trace\<close>, oldest first).
  \<open>logged\<close> collects the format strings of the \<^verbatim>\<open>sr_err\<close>, \<^verbatim>\<open>sr_warn\<close> and
  \<^verbatim>\<open>sr_info\<close> calls (debug output is left out).
\<close>

datatype loglevel = LOG_ERR | LOG_WARN | LOG_INFO

record world =
  script :: "bool list"
  trace :: "io_event list"
  logged :: "(loglevel \<times> string) list"

definition sr_log :: "loglevel \<Rightarrow> string \<Rightarrow> world \<Rightarrow> world" where
  "sr_log lvl fmt w = w\<lparr>logged := logged w @ [(lvl, fmt)]\<rparr>"

definition next_outcome :: "world \<Rightarrow> bool \<times> world" where
  "next_outcome w = (case script w of [] \<Rightarrow> (True, w) | b # bs \<Rightarrow> (b, w\<lparr>script := bs\<rparr>))"

definition emit :: "io_event \<Rightarrow> world \<Rightarrow> world" where
  "emit ev w = w\<lparr>trace := trace w @ [ev]\<rparr>"

definition g_mkdir :: "string \<Rightarrow> world \<Rightarrow> bool \<times> world" where
  "g_mkdir dir w = (case next_outcome w of (ok, w') \<Rightarrow> (ok, emit (Ev_mkdir dir ok) w'))"

definition g_chdir :: "string \<Rightarrow> world \<Rightarrow> bool \<times> world" where
  "g_chdir dir w = (case next_outcome w of (ok, w') \<Rightarrow> (ok, emit (Ev_chdir dir ok) w'))"

definition g_fopen :: "fname \<Rightarrow> world \<Rightarrow> bool \<times> world" where
  "g_fopen f w = (case next_outcome w of (ok, w') \<Rightarrow> (ok, emit (Ev_fopen f ok) w'))"

fun content_size :: "content \<Rightarrow> nat" where
  "content_size (Bytes bs) = length bs"
| "content_size (Floats fs) = sizeof_float * length fs"
| "content_size (Keyfile kf) = Suc (length kf)"

text \<open>
  \<^verbatim>\<open>fwrite(buf, size, 1, f) == 1\<close>: with \<^verbatim>\<open>size == 0\<close> the C library writes nothing and
  returns 0, so the comparison fails whatever the device does. A serialised key file is
  never empty (it has a group header), hence the \<open>Suc\<close> above.
\<close>

definition fwrite1 :: "fname \<Rightarrow> content \<Rightarrow> world \<Rightarrow> bool \<times> world" where
  "fwrite1 f c w =
     (if content_size c = 0 then (False, emit (Ev_fwrite f c False) w)
      else case next_outcome w of (ok, w') \<Rightarrow> (ok, emit (Ev_fwrite f c ok) w'))"

text \<open>
  \<^verbatim>\<open>g_try_malloc0(n) != NULL\<close>: GLib returns \<^verbatim>\<open>NULL\<close> for a request of zero bytes.
\<close>

definition g_try_malloc0 :: "nat \<Rightarrow> world \<Rightarrow> bool \<times> world" where
  "g_try_malloc0 n w = (if n = 0 then (False, w) else next_outcome w)"

fun kf_set :: "meta_key \<Rightarrow> meta_val \<Rightarrow> keyfile \<Rightarrow> keyfile" where
  "kf_set k v [] = [(k, v)]"
| "kf_set k v ((k', v') # kf) = (if k = k' then (k, v) # kf else (k', v') # kf_set k v kf)"

definition gint_of_guint :: "32 word \<Rightarrow> int" where
  "gint_of_guint n = sint n"

definition gint_of_size :: "nat \<Rightarrow> int" where
  "gint_of_size n = sint (word_of_nat n :: 32 word)"

definition size_of_int :: "int \<Rightarrow> nat" where
  "size_of_int i = nat (i mod 2 ^ 64)"

section \<open>Directory initialisation\<close>

text \<open>The first loop of \<^verbatim>\<open>dir_create\<close>: the three \<^verbatim>\<open>guint\<close> counters.\<close>

fun count_channels ::
  "sr_channel list \<Rightarrow> 32 word \<times> 32 word \<times> 32 word \<Rightarrow> 32 word \<times> 32 word \<times> 32 word" where
  "count_channels [] acc = acc"
| "count_channels (ch # l) (logic_channels, enabled_logic_channels, enabled_analog_channels) =
     (case ch_type ch of
        SR_CHANNEL_LOGIC \<Rightarrow>
          count_channels l
            (logic_channels + 1,
             if ch_enabled ch then enabled_logic_channels + 1 else enabled_logic_channels,
             enabled_analog_channels)
      | SR_CHANNEL_ANALOG \<Rightarrow>
          count_channels l
            (logic_channels, enabled_logic_channels,
             if ch_enabled ch then enabled_analog_channels + 1 else enabled_analog_channels))"

text \<open>
  The second loop: names the enabled channels in the key file and fills the index map.
  The state is the \<^verbatim>\<open>guint index\<close>, the index map and the key file.
\<close>

fun name_channels ::
  "nat \<Rightarrow> sr_channel list \<Rightarrow> 32 word \<times> int list \<times> keyfile \<Rightarrow> 32 word \<times> int list \<times> keyfile" where
  "name_channels fai [] st = st"
| "name_channels fai (ch # l) (index, amap, meta) =
     (if \<not> ch_enabled ch then name_channels fai l (index, amap, meta)
      else case ch_type ch of
        SR_CHANNEL_LOGIC \<Rightarrow>
          name_channels fai l
            (index, amap,
             kf_set (Key_probe (size_of_int (ch_index ch + 1))) (Val_str (ch_name ch)) meta)
      | SR_CHANNEL_ANALOG \<Rightarrow>
          name_channels fai l
            (index + 1, amap[unat index := ch_index ch],
             kf_set (Key_analog (fai + unat index)) (Val_str (ch_name ch)) meta))"

definition zero_analog_buffer :: analog_buffer where
  "zero_analog_buffer =
     \<lparr>ab_alloc_size = 0, ab_samples = (\<lambda>_. 0), ab_fill_size = 0, ab_next_chunk_num = 0\<rparr>"

text \<open>The loop that allocates the analog buffers; \<open>False\<close> when an allocation fails.\<close>

function init_analog_buffs ::
  "nat \<Rightarrow> nat \<Rightarrow> analog_buffer list \<Rightarrow> world \<Rightarrow> bool \<times> analog_buffer list \<times> world" where
  "init_analog_buffs index count bufs w =
     (if index < count then
        (case g_try_malloc0 CHUNK_SIZE w of
           (False, w') \<Rightarrow> (False, bufs, w')
         | (True, w') \<Rightarrow>
             init_analog_buffs (index + 1) count
               (bufs[index := \<lparr>ab_alloc_size = CHUNK_SIZE div sizeof_float,
                               ab_samples = (\<lambda>_. 0),
                               ab_fill_size = 0,
                               ab_next_chunk_num = 1\<rparr>]) w')
      else (True, bufs, w))"
  by pat_completeness auto
termination
  by (relation "measure (\<lambda>(index, count, bufs, w). count - index)") auto

declare init_analog_buffs.simps [simp del]

text \<open>
  \<^verbatim>\<open>dir_create\<close>, in the order of the C function. \<open>dir_create_layout\<close> is the part
  between the version file and the buffer allocation (the key file and the channel
  layout, which call nothing that can fail); it also hands on \<^verbatim>\<open>logic_channels\<close>.
\<close>

definition dir_create_layout :: "sr_dev_inst \<Rightarrow> out_context \<Rightarrow> out_context \<times> keyfile \<times> 32 word" where
  "dir_create_layout sdi outc1 =
     (let meta0 = kf_set Key_sigrok_version Val_package_version [];
          (logic_channels, enabled_logic_channels, enabled_analog_channels) =
             count_channels (channels sdi) (0, 0, 0);
          outc2 = outc1\<lparr>first_analog_index :=
                     (if enabled_logic_channels > 0 then unat (logic_channels + 1) else 1)\<rparr>;
          meta1 = (if enabled_logic_channels > 0
                   then kf_set Key_total_probes (Val_int (gint_of_guint logic_channels))
                          (kf_set Key_capturefile (Val_str ''logic-1'') meta0)
                   else meta0);
          meta2 = kf_set Key_samplerate (Val_rate (samplerate outc2)) meta1;
          meta3 = kf_set Key_total_analog (Val_int (gint_of_guint enabled_analog_channels)) meta2;
          outc3 = outc2\<lparr>analog_ch_count := unat enabled_analog_channels\<rparr>;
          (index, amap, meta4) =
             name_channels (first_analog_index outc3) (channels sdi)
               (0, replicate (analog_ch_count outc3) 0, meta3)
      in (outc3\<lparr>analog_index_map := amap\<rparr>, meta4, logic_channels))"

definition dir_create :: "sr_dev_inst \<Rightarrow> out_context \<Rightarrow> world \<Rightarrow> sr_ret \<times> out_context \<times> world" where
  "dir_create sdi outc0 w0 =
    (let outc1 =
           (if samplerate outc0 = 0 then
              (case conf_samplerate sdi of
                 Some r \<Rightarrow> outc0\<lparr>samplerate := r\<rparr>
               | None \<Rightarrow> outc0)
            else outc0)
     in case g_mkdir (filename outc1) w0 of
       (False, w1) \<Rightarrow> (SR_ERR, outc1, sr_log LOG_ERR ''Could not create directory: %s'' w1)
     | (True, w1) \<Rightarrow>
     (case g_chdir (filename outc1) w1 of
       (False, w2) \<Rightarrow> (SR_ERR, outc1, sr_log LOG_ERR ''Could not change directory: %s'' w2)
     | (True, w2) \<Rightarrow>
     (case g_fopen File_version w2 of
       (False, w3) \<Rightarrow>
         (SR_ERR, outc1, sr_log LOG_ERR ''Error saving version into directory: %s'' w3)
     | (True, w3) \<Rightarrow>
     (case fwrite1 File_version (Bytes [0x32]) w3 of
       (False, w4) \<Rightarrow>
         (SR_ERR, outc1, sr_log LOG_ERR ''Error saving version into directory: %s'' w4)
     | (True, w4) \<Rightarrow>
     (case dir_create_layout sdi outc1 of (outc4, meta4, logic_channels) \<Rightarrow>
     (let unit_size = (unat logic_channels + (8 - 1)) div 8;
          outc5 = outc4\<lparr>logic_buff := (logic_buff outc4)\<lparr>lb_unit_size := unit_size\<rparr>\<rparr>
      in case g_try_malloc0 CHUNK_SIZE w4 of
        (False, w5) \<Rightarrow> (SR_ERR_MALLOC, outc5, w5)
      | (True, w5) \<Rightarrow>
      (let alloc_size = (if unit_size \<noteq> 0 then CHUNK_SIZE div unit_size else CHUNK_SIZE);
           outc6 = outc5\<lparr>logic_buff :=
                     \<lparr>lb_unit_size = unit_size,
                      lb_alloc_size = alloc_size,
                      lb_samples = (\<lambda>_. 0),
                      lb_fill_size = 0,
                      lb_next_chunk_num = 1\<rparr>\<rparr>
       in case init_analog_buffs 0 (analog_ch_count outc6)
                 (replicate (analog_ch_count outc6) zero_analog_buffer) w5 of
         (False, bufs, w6) \<Rightarrow> (SR_ERR_MALLOC, outc6\<lparr>analog_buff := bufs\<rparr>, w6)
       | (True, bufs, w6) \<Rightarrow>
       (let outc7 = outc6\<lparr>analog_buff := bufs\<rparr>;
            meta5 = (if unit_size > 0
                     then kf_set Key_unitsize (Val_int (gint_of_size unit_size)) meta4
                     else meta4)
        in case g_fopen File_metadata w6 of
          (False, w7) \<Rightarrow>
            (SR_ERR, outc7, sr_log LOG_ERR ''Error saving metadata into directory: %s'' w7)
        | (True, w7) \<Rightarrow>
        (case fwrite1 File_metadata (Keyfile meta5) w7 of
          (False, w8) \<Rightarrow>
            (SR_ERR, outc7, sr_log LOG_ERR ''Error saving metadata into directory: %s'' w8)
        | (True, w8) \<Rightarrow> (SR_OK, outc7, w8))))))))))"

section \<open>Chunk writes and the queues\<close>

text \<open>
  \<^verbatim>\<open>memcpy(dst + off, src, n)\<close> on a store, and the subtraction of two \<^verbatim>\<open>size_t\<close>
  values (which wraps when the second exceeds the first).
\<close>

definition memcpy :: "(nat \<Rightarrow> 'a) \<Rightarrow> nat \<Rightarrow> 'a list \<Rightarrow> nat \<Rightarrow> (nat \<Rightarrow> 'a)" where
  "memcpy dst off src n = (\<lambda>i. if off \<le> i \<and> i < off + n then src ! (i - off) else dst i)"

definition size_sub :: "nat \<Rightarrow> nat \<Rightarrow> nat" where
  "size_sub a b = (if b \<le> a then a - b else a + 2 ^ 64 - b)"

text \<open>
  \<^verbatim>\<open>dir_append\<close> writes \<open>len\<close> bytes (the C parameter \<^verbatim>\<open>length\<close>) of \<open>buf\<close> to the next logic chunk. The
  remainder \<^verbatim>\<open>length % unitsize\<close> only decides a warning; both callers pass
  \<open>len = fill_size * unitsize\<close>, so a non-zero length comes with a non-zero unit size.
\<close>

definition dir_append ::
  "out_context \<Rightarrow> world \<Rightarrow> (nat \<Rightarrow> byte) \<Rightarrow> nat \<Rightarrow> nat \<Rightarrow> sr_ret \<times> out_context \<times> world" where
  "dir_append outc w buf unitsize len =
     (if len = 0 then (SR_OK, outc, w)
      else
        let w0 = (if len mod unitsize \<noteq> 0
                  then sr_log LOG_WARN ''Chunk size %zu not a multiple of the unit size %zu.'' w
                  else w);
            chunkname = File_logic (lb_next_chunk_num (logic_buff outc))
        in case g_fopen chunkname w0 of
          (False, w1) \<Rightarrow> (SR_ERR, outc, sr_log LOG_ERR ''Failed to add chunk '%s': %s'' w1)
        | (True, w1) \<Rightarrow>
          (case fwrite1 chunkname (Bytes (map buf [0..<len])) w1 of
            (False, w2) \<Rightarrow> (SR_ERR, outc, sr_log LOG_ERR ''Failed to add chunk '%s': %s'' w2)
          | (True, w2) \<Rightarrow>
              (SR_OK,
               outc\<lparr>logic_buff := (logic_buff outc)
                  \<lparr>lb_next_chunk_num := lb_next_chunk_num (logic_buff outc) + 1\<rparr>\<rparr>,
               w2)))"

text \<open>
  One pass through the body of the \<^verbatim>\<open>while (send_size)\<close> loop of
  \<^verbatim>\<open>dir_append_queue\<close>, up to the flush: the \<^verbatim>\<open>if (remain)\<close> block. It returns
  the context, the read pointer (the input still to copy), \<open>send_size\<close> and \<open>remain\<close>.
\<close>

definition logic_copy :: "out_context \<Rightarrow> byte list \<Rightarrow> nat \<Rightarrow> out_context \<times> byte list \<times> nat \<times> nat" where
  "logic_copy outc rdptr send_size =
     (let buff = logic_buff outc;
          remain = size_sub (lb_alloc_size buff) (lb_fill_size buff)
      in if remain \<noteq> 0 then
           let wroff = lb_fill_size buff * lb_unit_size buff;
               copy_size = min send_size remain;
               buff' = buff\<lparr>lb_fill_size := lb_fill_size buff + copy_size,
                            lb_samples := memcpy (lb_samples buff) wroff rdptr
                                            (copy_size * lb_unit_size buff)\<rparr>
           in (outc\<lparr>logic_buff := buff'\<rparr>,
               drop (copy_size * lb_unit_size buff) rdptr,
               send_size - copy_size,
               remain - copy_size)
         else (outc, rdptr, send_size, remain))"

partial_function (option) logic_queue_loop ::
  "out_context \<Rightarrow> world \<Rightarrow> byte list \<Rightarrow> nat \<Rightarrow> (sr_ret \<times> out_context \<times> world) option" where
  "logic_queue_loop outc w rdptr send_size =
     (if send_size = 0 then Some (SR_OK, outc, w)
      else case logic_copy outc rdptr send_size of (outc1, rdptr1, send_size1, remain1) \<Rightarrow>
        if send_size1 \<noteq> 0 \<and> remain1 = 0 then
          (case dir_append outc1 w (lb_samples (logic_buff outc1)) (lb_unit_size (logic_buff outc1))
                  (lb_fill_size (logic_buff outc1) * lb_unit_size (logic_buff outc1)) of
             (ret, outc2, w2) \<Rightarrow>
               if ret \<noteq> SR_OK then Some (ret, outc2, w2)
               else logic_queue_loop
                      (outc2\<lparr>logic_buff := (logic_buff outc2)\<lparr>lb_fill_size := 0\<rparr>\<rparr>)
                      w2 rdptr1 send_size1)
        else logic_queue_loop outc1 w rdptr1 send_size1)"

declare logic_queue_loop.simps [code]

definition dir_append_queue ::
  "out_context \<Rightarrow> world \<Rightarrow> byte list \<Rightarrow> nat \<Rightarrow> nat \<Rightarrow> bool
     \<Rightarrow> (sr_ret \<times> out_context \<times> world) option" where
  "dir_append_queue outc w buf unitsize len flush =
     (if len \<noteq> 0 \<and> unitsize \<noteq> lb_unit_size (logic_buff outc) then
        Some (SR_ERR_ARG, outc, sr_log LOG_WARN ''Unexpected unit size, discarding logic data.'' w)
      else
        let send_size = (if lb_unit_size (logic_buff outc) \<noteq> 0
                         then len div lb_unit_size (logic_buff outc) else 0)
        in case logic_queue_loop outc w buf send_size of
          None \<Rightarrow> None
        | Some (ret, outc1, w1) \<Rightarrow>
            if ret \<noteq> SR_OK then Some (ret, outc1, w1)
            else if flush \<and> lb_fill_size (logic_buff outc1) \<noteq> 0 then
              (case dir_append outc1 w1 (lb_samples (logic_buff outc1))
                      (lb_unit_size (logic_buff outc1))
                      (lb_fill_size (logic_buff outc1) * lb_unit_size (logic_buff outc1)) of
                 (ret2, outc2, w2) \<Rightarrow>
                   if ret2 \<noteq> SR_OK then Some (ret2, outc2, w2)
                   else Some (SR_OK,
                              outc2\<lparr>logic_buff := (logic_buff outc2)\<lparr>lb_fill_size := 0\<rparr>\<rparr>,
                              w2))
            else Some (SR_OK, outc1, w1))"

text \<open>
  \<^verbatim>\<open>dir_append_analog\<close>: the buffer is \<^verbatim>\<open>analog_buff[ch_nr - first_analog_index]\<close>; both
  callers pass \<open>ch_nr = first_analog_index + idx\<close> with \<open>idx < analog_ch_count\<close>.
  The chunk number is incremented on every path.
\<close>

definition dir_append_analog ::
  "out_context \<Rightarrow> world \<Rightarrow> (nat \<Rightarrow> cfloat) \<Rightarrow> nat \<Rightarrow> nat \<Rightarrow> sr_ret \<times> out_context \<times> world" where
  "dir_append_analog outc w values count ch_nr =
     (let idx = size_sub ch_nr (first_analog_index outc);
          buff = analog_buff outc ! idx;
          chunkname = File_analog ch_nr (ab_next_chunk_num buff);
          (sr_status, w') =
            (case g_fopen chunkname w of
               (False, w1) \<Rightarrow> (SR_ERR, sr_log LOG_ERR ''Failed to add chunk '%s': %s'' w1)
             | (True, w1) \<Rightarrow>
               (case fwrite1 chunkname (Floats (map values [0..<count])) w1 of
                  (False, w2) \<Rightarrow> (SR_ERR, sr_log LOG_ERR ''Failed to add chunk '%s': %s'' w2)
                | (True, w2) \<Rightarrow> (SR_OK, w2)))
      in (sr_status,
          outc\<lparr>analog_buff := (analog_buff outc)
             [idx := buff\<lparr>ab_next_chunk_num := ab_next_chunk_num buff + 1\<rparr>]\<rparr>,
          w'))"

text \<open>The end-of-stream branch of \<^verbatim>\<open>dir_append_analog_queue\<close>: the loop over all buffers.\<close>

function analog_flush_all :: "nat \<Rightarrow> out_context \<Rightarrow> world \<Rightarrow> sr_ret \<times> out_context \<times> world" where
  "analog_flush_all idx outc w =
     (if idx < analog_ch_count outc then
        let nr = first_analog_index outc + idx;
            buff = analog_buff outc ! idx
        in if ab_fill_size buff = 0 then analog_flush_all (idx + 1) outc w
           else
             (case dir_append_analog outc w (ab_samples buff) (ab_fill_size buff) nr of
                (ret, outc1, w1) \<Rightarrow>
                  if ret \<noteq> SR_OK then (ret, outc1, w1)
                  else analog_flush_all (idx + 1)
                         (outc1\<lparr>analog_buff := (analog_buff outc1)
                            [idx := (analog_buff outc1 ! idx)\<lparr>ab_fill_size := 0\<rparr>]\<rparr>) w1)
      else (SR_OK, outc, w))"
  by pat_completeness auto
termination
  by (relation "measure (\<lambda>(idx, outc, w). analog_ch_count outc - idx)")
    (auto simp: dir_append_analog_def Let_def split: prod.splits)

declare analog_flush_all.simps [simp del]

text \<open>
  An analog packet (\<^verbatim>\<open>struct sr_datafeed_analog\<close>), as far as the module reads it: the
  channels of \<^verbatim>\<open>analog->meaning->channels\<close>, \<^verbatim>\<open>num_samples\<close>, and what the library's
  \<^verbatim>\<open>sr_analog_to_float\<close> does with the packet: its return code and the floats it stores
  (\<^verbatim>\<open>num_samples\<close> of them).
\<close>

record sr_datafeed_analog =
  an_channels :: "sr_channel list"
  an_num_samples :: nat
  an_to_float_ret :: sr_ret
  an_to_float_values :: "cfloat list"

text \<open>The lookup loop: the first slot of the index map that holds the channel's index.\<close>

function find_analog_idx :: "nat \<Rightarrow> nat \<Rightarrow> int list \<Rightarrow> int \<Rightarrow> nat" where
  "find_analog_idx idx count amap chidx =
     (if idx < count then
        (if amap ! idx = chidx then idx else find_analog_idx (idx + 1) count amap chidx)
      else idx)"
  by pat_completeness auto
termination
  by (relation "measure (\<lambda>(idx, count, amap, chidx). count - idx)") auto

declare find_analog_idx.simps [simp del]

definition analog_copy ::
  "out_context \<Rightarrow> nat \<Rightarrow> cfloat list \<Rightarrow> nat \<Rightarrow> out_context \<times> cfloat list \<times> nat \<times> nat" where
  "analog_copy outc idx rdptr send_size =
     (let buff = analog_buff outc ! idx;
          remain = size_sub (ab_alloc_size buff) (ab_fill_size buff)
      in if remain \<noteq> 0 then
           let wroff = ab_fill_size buff;
               copy_size = min send_size remain;
               buff' = buff\<lparr>ab_fill_size := ab_fill_size buff + copy_size,
                            ab_samples := memcpy (ab_samples buff) wroff rdptr copy_size\<rparr>
           in (outc\<lparr>analog_buff := (analog_buff outc)[idx := buff']\<rparr>,
               drop copy_size rdptr,
               send_size - copy_size,
               remain - copy_size)
         else (outc, rdptr, send_size, remain))"

partial_function (option) analog_queue_loop ::
  "out_context \<Rightarrow> world \<Rightarrow> nat \<Rightarrow> nat \<Rightarrow> cfloat list \<Rightarrow> nat
     \<Rightarrow> (sr_ret \<times> out_context \<times> world) option" where
  "analog_queue_loop outc w idx nr rdptr send_size =
     (if send_size = 0 then Some (SR_OK, outc, w)
      else case analog_copy outc idx rdptr send_size of (outc1, rdptr1, send_size1, remain1) \<Rightarrow>
        if send_size1 \<noteq> 0 \<and> remain1 = 0 then
          (case dir_append_analog outc1 w (ab_samples (analog_buff outc1 ! idx))
                  (ab_fill_size (analog_buff outc1 ! idx)) nr of
             (ret, outc2, w2) \<Rightarrow>
               if ret \<noteq> SR_OK then Some (ret, outc2, w2)
               else analog_queue_loop
                      (outc2\<lparr>analog_buff := (analog_buff outc2)
                         [idx := (analog_buff outc2 ! idx)\<lparr>ab_fill_size := 0\<rparr>]\<rparr>)
                      w2 idx nr rdptr1 send_size1)
        else analog_queue_loop outc1 w idx nr rdptr1 send_size1)"

declare analog_queue_loop.simps [code]

text \<open>
  \<^verbatim>\<open>dir_append_analog_queue\<close>. The packet pointer may be \<^verbatim>\<open>NULL\<close> (\<open>None\<close>), which
  with \<open>flush\<close> is the end-of-stream call. A \<^verbatim>\<open>NULL\<close> packet without \<open>flush\<close> would be
  dereferenced: the function does not return then (\<open>None\<close>), and nothing calls it so.
\<close>

definition dir_append_analog_queue ::
  "out_context \<Rightarrow> world \<Rightarrow> sr_datafeed_analog option \<Rightarrow> bool
     \<Rightarrow> (sr_ret \<times> out_context \<times> world) option" where
  "dir_append_analog_queue outc w analog flush =
     (case analog of
        None \<Rightarrow> if flush then Some (analog_flush_all 0 outc w) else None
      | Some an \<Rightarrow>
          if length (an_channels an) \<noteq> 1 then
            Some (SR_ERR, outc,
                  sr_log LOG_ERR ''Analog packets covering multiple channels not supported yet'' w)
          else
            let ch = an_channels an ! 0;
                idx = find_analog_idx 0 (analog_ch_count outc) (analog_index_map outc) (ch_index ch)
            in if idx = analog_ch_count outc then Some (SR_ERR_ARG, outc, w)
               else
                 let nr = first_analog_index outc + idx
                 in case g_try_malloc0 (an_num_samples an * sizeof_float) w of
                   (False, w0) \<Rightarrow> Some (SR_ERR_MALLOC, outc, w0)
                 | (True, w0) \<Rightarrow>
                     if an_to_float_ret an \<noteq> SR_OK then Some (an_to_float_ret an, outc, w0)
                     else
                       (case analog_queue_loop outc w0 idx nr (an_to_float_values an)
                               (an_num_samples an) of
                          None \<Rightarrow> None
                        | Some (ret, outc1, w1) \<Rightarrow>
                            if ret \<noteq> SR_OK then Some (ret, outc1, w1)
                            else if flush \<and> ab_fill_size (analog_buff outc1 ! idx) \<noteq> 0 then
                              (case dir_append_analog outc1 w1
                                      (ab_samples (analog_buff outc1 ! idx))
                                      (ab_fill_size (analog_buff outc1 ! idx)) nr of
                                 (ret2, outc2, w2) \<Rightarrow>
                                   if ret2 \<noteq> SR_OK then Some (ret2, outc2, w2)
                                   else Some (SR_OK,
                                              outc2\<lparr>analog_buff := (analog_buff outc2)
                                                [idx := (analog_buff outc2 ! idx)
                                                   \<lparr>ab_fill_size := 0\<rparr>]\<rparr>,
                                              w2))
                            else Some (SR_OK, outc1, w1)))"

section \<open>The module's entry points\<close>

text \<open>
  The output instance \<^verbatim>\<open>struct sr_output\<close>: the fields the module reads. A \<^verbatim>\<open>NULL\<close>
  pointer is \<open>None\<close>.
\<close>

record sr_output =
  o_filename :: "string option"
  sdi :: "sr_dev_inst option"
  priv :: "out_context option"

definition zero_logic_buffer :: logic_buffer where
  "zero_logic_buffer =
     \<lparr>lb_unit_size = 0, lb_alloc_size = 0, lb_samples = (\<lambda>_. 0), lb_fill_size = 0,
      lb_next_chunk_num = 0\<rparr>"

text \<open>\<^verbatim>\<open>init\<close>: the context is \<^verbatim>\<open>g_malloc0\<close>'ed, so every field but the file name is zero.\<close>

definition init :: "sr_output \<Rightarrow> world \<Rightarrow> sr_ret \<times> sr_output \<times> world" where
  "init out w =
     (case o_filename out of
        None \<Rightarrow>
          (SR_ERR_ARG, out,
           sr_log LOG_INFO ''srdir output module requires a file name, cannot save.'' w)
      | Some fn \<Rightarrow>
          if fn = [] then
            (SR_ERR_ARG, out,
             sr_log LOG_INFO ''srdir output module requires a file name, cannot save.'' w)
          else
            (SR_OK,
             out\<lparr>priv := Some \<lparr>dir_created = False, samplerate = 0, filename = fn,
                              first_analog_index = 0, analog_ch_count = 0,
                              analog_index_map = [], logic_buff = zero_logic_buffer,
                              analog_buff = []\<rparr>\<rparr>,
             w))"

text \<open>
  The packets of the session feed. \<^verbatim>\<open>SR_CONF_SAMPLERATE\<close> is a key of the library's
  \<^verbatim>\<open>enum sr_configkey\<close>; \<open>SR_DF_OTHER\<close> stands for the packet types the \<^verbatim>\<open>switch\<close>
  has no case for.
\<close>

definition SR_CONF_SAMPLERATE :: nat where
  "SR_CONF_SAMPLERATE = 30000"

record sr_config =
  cfg_key :: nat
  cfg_data :: "64 word"

record sr_datafeed_logic =
  lg_length :: nat
  lg_unitsize :: nat
  lg_data :: "byte list"

datatype sr_datafeed_packet =
  SR_DF_META "sr_config list"
  | SR_DF_LOGIC sr_datafeed_logic
  | SR_DF_ANALOG sr_datafeed_analog
  | SR_DF_END
  | SR_DF_OTHER

fun meta_samplerate :: "sr_config list \<Rightarrow> out_context \<Rightarrow> out_context" where
  "meta_samplerate [] outc = outc"
| "meta_samplerate (src # l) outc =
     (if cfg_key src \<noteq> SR_CONF_SAMPLERATE then meta_samplerate l outc
      else meta_samplerate l (outc\<lparr>samplerate := cfg_data src\<rparr>))"

text \<open>The lazy call of \<^verbatim>\<open>dir_create\<close> that the logic and the analog case share.\<close>

definition ensure_dir :: "sr_dev_inst \<Rightarrow> out_context \<Rightarrow> world \<Rightarrow> sr_ret \<times> out_context \<times> world" where
  "ensure_dir d outc w =
     (if \<not> dir_created outc then
        (case dir_create d outc w of
           (ret, outc1, w1) \<Rightarrow>
             if ret \<noteq> SR_OK then (ret, outc1, w1)
             else (SR_OK, outc1\<lparr>dir_created := True\<rparr>, w1))
      else (SR_OK, outc, w))"

definition receive_packet ::
  "sr_dev_inst \<Rightarrow> out_context \<Rightarrow> sr_datafeed_packet \<Rightarrow> world
     \<Rightarrow> (sr_ret \<times> out_context \<times> world) option" where
  "receive_packet d outc packet w =
     (case packet of
        SR_DF_META config \<Rightarrow> Some (SR_OK, meta_samplerate config outc, w)
      | SR_DF_LOGIC logic \<Rightarrow>
          (case ensure_dir d outc w of
             (ret, outc1, w1) \<Rightarrow>
               if ret \<noteq> SR_OK then Some (ret, outc1, w1)
               else dir_append_queue outc1 w1 (lg_data logic) (lg_unitsize logic)
                      (lg_length logic) False)
      | SR_DF_ANALOG analog \<Rightarrow>
          (case ensure_dir d outc w of
             (ret, outc1, w1) \<Rightarrow>
               if ret \<noteq> SR_OK then Some (ret, outc1, w1)
               else dir_append_analog_queue outc1 w1 (Some analog) False)
      | SR_DF_END \<Rightarrow>
          if dir_created outc then
            (case dir_append_queue outc w [] 0 0 True of
               None \<Rightarrow> None
             | Some (ret, outc1, w1) \<Rightarrow>
                 if ret \<noteq> SR_OK then Some (ret, outc1, w1)
                 else dir_append_analog_queue outc1 w1 None True)
          else Some (SR_OK, outc, w)
      | SR_DF_OTHER \<Rightarrow> Some (SR_OK, outc, w))"

text \<open>
  \<^verbatim>\<open>receive\<close>: the three \<^verbatim>\<open>NULL\<close> checks, then the \<^verbatim>\<open>switch\<close> on the packet type.
  \<open>None\<close> as the result means that the call does not return.
\<close>

definition receive ::
  "sr_output option \<Rightarrow> sr_datafeed_packet \<Rightarrow> world \<Rightarrow> (sr_ret \<times> sr_output option \<times> world) option" where
  "receive o_ptr packet w =
     (case o_ptr of
        None \<Rightarrow> Some (SR_ERR_ARG, None, w)
      | Some out \<Rightarrow>
          (case sdi out of
             None \<Rightarrow> Some (SR_ERR_ARG, o_ptr, w)
           | Some d \<Rightarrow>
               (case priv out of
                  None \<Rightarrow> Some (SR_ERR_ARG, o_ptr, w)
                | Some outc \<Rightarrow>
                    (case receive_packet d outc packet w of
                       None \<Rightarrow> None
                     | Some (ret, outc1, w1) \<Rightarrow> Some (ret, Some (out\<lparr>priv := Some outc1\<rparr>), w1)))))"

text \<open>
  A session: the caller feeds the packets in order and stops at the first call that
  does not return \<^verbatim>\<open>SR_OK\<close>.
\<close>

fun session ::
  "sr_output option \<Rightarrow> world \<Rightarrow> sr_datafeed_packet list
     \<Rightarrow> (sr_ret \<times> sr_output option \<times> world) option" where
  "session o_ptr w [] = Some (SR_OK, o_ptr, w)"
| "session o_ptr w (packet # packets) =
     (case receive o_ptr packet w of
        None \<Rightarrow> None
      | Some (ret, o_ptr1, w1) \<Rightarrow>
          if ret \<noteq> SR_OK then Some (ret, o_ptr1, w1) else session o_ptr1 w1 packets)"

section \<open>Notions used in the statements\<close>

text \<open>
  The counts of the specification: all logic channels, the enabled logic channels, and
  the enabled analog channels in the order of the channel list. \<open>io_ok\<close> says that no
  library call still to come fails.
\<close>

definition io_ok :: "world \<Rightarrow> bool" where
  "io_ok w = (False \<notin> set (script w))"

definition logic_channel_count :: "sr_channel list \<Rightarrow> nat" where
  "logic_channel_count chs = length (filter (\<lambda>ch. ch_type ch = SR_CHANNEL_LOGIC) chs)"

definition enabled_logic_count :: "sr_channel list \<Rightarrow> nat" where
  "enabled_logic_count chs =
     length (filter (\<lambda>ch. ch_type ch = SR_CHANNEL_LOGIC \<and> ch_enabled ch) chs)"

definition enabled_analog :: "sr_channel list \<Rightarrow> sr_channel list" where
  "enabled_analog chs = filter (\<lambda>ch. ch_type ch = SR_CHANNEL_ANALOG \<and> ch_enabled ch) chs"

definition analog_number_base :: "sr_channel list \<Rightarrow> nat" where
  "analog_number_base chs =
     (if enabled_logic_count chs > 0 then logic_channel_count chs + 1 else 1)"

definition fresh_analog_buffer :: analog_buffer where
  "fresh_analog_buffer =
     \<lparr>ab_alloc_size = CHUNK_SIZE div sizeof_float, ab_samples = (\<lambda>_. 0),
      ab_fill_size = 0, ab_next_chunk_num = 1\<rparr>"

definition fresh_logic_buffer :: "nat \<Rightarrow> logic_buffer" where
  "fresh_logic_buffer L =
     \<lparr>lb_unit_size = (L + 7) div 8,
      lb_alloc_size = (if (L + 7) div 8 \<noteq> 0 then CHUNK_SIZE div ((L + 7) div 8) else CHUNK_SIZE),
      lb_samples = (\<lambda>_. 0), lb_fill_size = 0, lb_next_chunk_num = 1\<rparr>"

text \<open>
  Concrete inputs for the examples: a fresh context as \<^verbatim>\<open>init\<close> leaves it, a world in
  which every call succeeds, and channel lists.
\<close>

definition ex_context :: out_context where
  "ex_context =
     \<lparr>dir_created = False, samplerate = 0, filename = ''capture'',
      first_analog_index = 0, analog_ch_count = 0, analog_index_map = [],
      logic_buff = zero_logic_buffer, analog_buff = []\<rparr>"

definition ex_world :: world where
  "ex_world = \<lparr>script = [], trace = [], logged = []\<rparr>"

definition logic_ch :: "nat \<Rightarrow> sr_channel" where
  "logic_ch i = \<lparr>ch_index = int i, ch_type = SR_CHANNEL_LOGIC, ch_enabled = True, ch_name = ''D''\<rparr>"

definition analog_ch :: "nat \<Rightarrow> sr_channel" where
  "analog_ch i = \<lparr>ch_index = int i, ch_type = SR_CHANNEL_ANALOG, ch_enabled = True, ch_name = ''A''\<rparr>"

definition ex_dev17 :: sr_dev_inst where
  "ex_dev17 = \<lparr>channels = map logic_ch [0..<17], conf_samplerate = None\<rparr>"

definition ex_dev :: sr_dev_inst where
  "ex_dev = \<lparr>channels = [logic_ch 0, (logic_ch 1)\<lparr>ch_enabled := False\<rparr>, logic_ch 2,
                            analog_ch 3, (analog_ch 4)\<lparr>ch_enabled := False\<rparr>, analog_ch 5],
             conf_samplerate = Some 1000000\<rparr>"

definition ex_dev_analog :: sr_dev_inst where
  "ex_dev_analog = \<lparr>channels = [analog_ch 0], conf_samplerate = None\<rparr>"

definition ex_ready_analog :: out_context where
  "ex_ready_analog =
     \<lparr>dir_created = True, samplerate = 0, filename = ''capture'',
      first_analog_index = 1, analog_ch_count = 1, analog_index_map = [0],
      logic_buff = fresh_logic_buffer 0, analog_buff = [fresh_analog_buffer]\<rparr>"

definition ex_ready :: out_context where
  "ex_ready =
     \<lparr>dir_created = True, samplerate = 1000000, filename = ''capture'',
      first_analog_index = 4, analog_ch_count = 2, analog_index_map = [3, 5],
      logic_buff = fresh_logic_buffer 3,
      analog_buff = [fresh_analog_buffer, fresh_analog_buffer]\<rparr>"

definition ex_one_byte :: out_context where
  "ex_one_byte =
     ex_ready\<lparr>logic_buff := (fresh_logic_buffer 3)
        \<lparr>lb_fill_size := 1, lb_samples := memcpy (\<lambda>_. 0) 0 [7] 1\<rparr>\<rparr>"

definition ex_analog_packet :: "sr_channel list \<Rightarrow> sr_datafeed_analog" where
  "ex_analog_packet chs =
     \<lparr>an_channels = chs, an_num_samples = 2, an_to_float_ret = SR_OK,
      an_to_float_values = [1, 2]\<rparr>"

definition ex_two_floats :: out_context where
  "ex_two_floats =
     ex_ready\<lparr>analog_buff :=
        [fresh_analog_buffer\<lparr>ab_fill_size := 2, ab_samples := memcpy (\<lambda>_. 0) 0 [1, 2] 2\<rparr>,
         fresh_analog_buffer]\<rparr>"

text \<open>
  The successful logic chunk writes of a trace, oldest first, each with the chunk number
  of its file name; the bytes the logic buffer holds; and the invariant of the logic
  buffer that \<^verbatim>\<open>dir_create\<close> establishes when there is a logic channel and the unit
  size does not exceed \<^verbatim>\<open>CHUNK_SIZE\<close>.
\<close>

fun logic_writes :: "io_event list \<Rightarrow> (32 word \<times> byte list) list" where
  "logic_writes [] = []"
| "logic_writes (Ev_fwrite (File_logic n) (Bytes bs) True # evs) = (n, bs) # logic_writes evs"
| "logic_writes (ev # evs) = logic_writes evs"

fun numbered_from :: "32 word \<Rightarrow> (32 word \<times> 'a) list \<Rightarrow> bool" where
  "numbered_from n [] = True"
| "numbered_from n ((m, x) # xs) = (m = n \<and> numbered_from (n + 1) xs)"

definition logic_buffered :: "out_context \<Rightarrow> byte list" where
  "logic_buffered outc =
     map (lb_samples (logic_buff outc))
       [0..<lb_fill_size (logic_buff outc) * lb_unit_size (logic_buff outc)]"

definition logic_ok :: "out_context \<Rightarrow> bool" where
  "logic_ok outc =
     (0 < lb_unit_size (logic_buff outc) \<and> 0 < lb_alloc_size (logic_buff outc) \<and>
      lb_fill_size (logic_buff outc) \<le> lb_alloc_size (logic_buff outc) \<and>
      lb_alloc_size (logic_buff outc) * lb_unit_size (logic_buff outc) \<le> CHUNK_SIZE)"

text \<open>
  \<open>logic_grows outc w outc' w' new\<close>: from \<open>(outc, w)\<close> to \<open>(outc', w')\<close> only the logic
  buffer has changed, keeping its unit size and capacity, and the logic chunks \<open>new\<close>
  were written in between, under consecutive chunk numbers that begin with the old
  \<open>next_chunk_num\<close> and end just before the new one.
\<close>

definition logic_grows ::
  "out_context \<Rightarrow> world \<Rightarrow> out_context \<Rightarrow> world \<Rightarrow> (32 word \<times> byte list) list \<Rightarrow> bool" where
  "logic_grows outc w outc' w' new =
     (dir_created outc' = dir_created outc \<and> samplerate outc' = samplerate outc \<and>
      filename outc' = filename outc \<and> first_analog_index outc' = first_analog_index outc \<and>
      analog_ch_count outc' = analog_ch_count outc \<and>
      analog_index_map outc' = analog_index_map outc \<and>
      analog_buff outc' = analog_buff outc \<and>
      lb_unit_size (logic_buff outc') = lb_unit_size (logic_buff outc) \<and>
      lb_alloc_size (logic_buff outc') = lb_alloc_size (logic_buff outc) \<and>
      lb_next_chunk_num (logic_buff outc') =
        lb_next_chunk_num (logic_buff outc) + of_nat (length new) \<and>
      logic_writes (trace w') = logic_writes (trace w) @ new \<and>
      numbered_from (lb_next_chunk_num (logic_buff outc)) new)"


text \<open>
  A logic packet that carries the bytes \<open>bs\<close> with unit size \<open>u\<close>, and the part of a
  block that \<^verbatim>\<open>dir_append_queue\<close> takes: its whole samples.
\<close>

definition logic_packet :: "nat \<Rightarrow> byte list \<Rightarrow> sr_datafeed_packet" where
  "logic_packet u bs = SR_DF_LOGIC \<lparr>lg_length = length bs, lg_unitsize = u, lg_data = bs\<rparr>"

definition whole_samples :: "nat \<Rightarrow> byte list \<Rightarrow> byte list" where
  "whole_samples u bs = take (length bs div u * u) bs"

definition ex_dev9 :: sr_dev_inst where
  "ex_dev9 = \<lparr>channels = map logic_ch [0..<9], conf_samplerate = None\<rparr>"

definition ex_ready9 :: out_context where
  "ex_ready9 =
     \<lparr>dir_created = True, samplerate = 0, filename = ''capture'',
      first_analog_index = 10, analog_ch_count = 0, analog_index_map = [],
      logic_buff = fresh_logic_buffer 9, analog_buff = []\<rparr>"

definition ex_out9 :: sr_output where
  "ex_out9 = \<lparr>o_filename = Some ''capture'', sdi = Some ex_dev9, priv = Some ex_ready9\<rparr>"

text \<open>
  Classes of file system events. \<open>chunk_writes evs\<close> holds of a sequence of events that
  writes chunk files one after the other: every opening of a chunk file that succeeds is
  followed at once by a write of at least one byte to that file, and an opening that fails
  by no write. \<open>empty_chunk_write\<close> holds of a write of no bytes to a chunk file;
  \<open>setup_io\<close> holds of what \<^verbatim>\<open>dir_create\<close> does after \<^verbatim>\<open>g_mkdir\<close>.
  \<open>chunk_step w w'\<close>: the world \<open>w'\<close> has the trace of \<open>w\<close> followed by chunk writes.
\<close>

fun is_chunk_file :: "fname \<Rightarrow> bool" where
  "is_chunk_file (File_logic n) = True"
| "is_chunk_file (File_analog ch n) = True"
| "is_chunk_file f = False"

fun chunk_writes :: "io_event list \<Rightarrow> bool" where
  "chunk_writes [] = True"
| "chunk_writes (Ev_fopen f True # Ev_fwrite f' c ok # evs) =
     (is_chunk_file f \<and> f' = f \<and> 0 < content_size c \<and> chunk_writes evs)"
| "chunk_writes (Ev_fopen f False # evs) = (is_chunk_file f \<and> chunk_writes evs)"
| "chunk_writes evs = False"

fun empty_chunk_write :: "io_event \<Rightarrow> bool" where
  "empty_chunk_write (Ev_fwrite (File_logic n) c ok) = (content_size c = 0)"
| "empty_chunk_write (Ev_fwrite (File_analog ch n) c ok) = (content_size c = 0)"
| "empty_chunk_write ev = False"

fun is_mkdir :: "io_event \<Rightarrow> bool" where
  "is_mkdir (Ev_mkdir dir ok) = True"
| "is_mkdir ev = False"

fun setup_io :: "io_event \<Rightarrow> bool" where
  "setup_io (Ev_chdir dir ok) = True"
| "setup_io (Ev_fopen File_version ok) = True"
| "setup_io (Ev_fopen File_metadata ok) = True"
| "setup_io (Ev_fwrite File_version c ok) = True"
| "setup_io (Ev_fwrite File_metadata c ok) = True"
| "setup_io ev = False"

definition chunk_step :: "world \<Rightarrow> world \<Rightarrow> bool" where
  "chunk_step w w' = (\<exists>evs. trace w' = trace w @ evs \<and> chunk_writes evs)"

text \<open>
  \<open>logic_frame outc outc'\<close>: the two contexts agree on everything but the logic buffer.
  \<open>analog_ok\<close> is the invariant of the analog buffers that \<^verbatim>\<open>dir_create\<close> establishes:
  one buffer per enabled analog channel, each with room for at least one sample and
  filled within its capacity. \<open>analog_frame\<close>: the fields that the analog queue leaves
  alone.
\<close>

definition logic_frame :: "out_context \<Rightarrow> out_context \<Rightarrow> bool" where
  "logic_frame outc outc' =
     (dir_created outc' = dir_created outc \<and> samplerate outc' = samplerate outc \<and>
      filename outc' = filename outc \<and> first_analog_index outc' = first_analog_index outc \<and>
      analog_ch_count outc' = analog_ch_count outc \<and>
      analog_index_map outc' = analog_index_map outc \<and>
      analog_buff outc' = analog_buff outc)"

definition analog_ok :: "out_context \<Rightarrow> bool" where
  "analog_ok outc =
     (length (analog_buff outc) = analog_ch_count outc \<and>
      (\<forall>b \<in> set (analog_buff outc). 0 < ab_alloc_size b \<and> ab_fill_size b \<le> ab_alloc_size b))"

definition analog_frame :: "out_context \<Rightarrow> out_context \<Rightarrow> bool" where
  "analog_frame outc outc' =
     (dir_created outc' = dir_created outc \<and> samplerate outc' = samplerate outc \<and>
      filename outc' = filename outc \<and> first_analog_index outc' = first_analog_index outc \<and>
      analog_ch_count outc' = analog_ch_count outc \<and>
      analog_index_map outc' = analog_index_map outc \<and>
      logic_buff outc' = logic_buff outc)"

text \<open>
  The packets that carry samples: the logic and the analog packets.
\<close>

fun is_sample_packet :: "sr_datafeed_packet \<Rightarrow> bool" where
  "is_sample_packet (SR_DF_LOGIC logic) = True"
| "is_sample_packet (SR_DF_ANALOG analog) = True"
| "is_sample_packet packet = False"

text \<open>
  The output instance of the nine-channel device as \<^verbatim>\<open>init\<close> leaves it, before the first
  packet.
\<close>

definition ex_fresh9 :: sr_output where
  "ex_fresh9 = \<lparr>o_filename = Some ''capture'', sdi = Some ex_dev9, priv = Some ex_context\<rparr>"

text \<open>
  The output instance of the device with three logic and two analog channels, after
  \<^verbatim>\<open>dir_create\<close>.
\<close>

definition ex_out_ready :: sr_output where
  "ex_out_ready = \<lparr>o_filename = Some ''capture'', sdi = Some ex_dev, priv = Some ex_ready\<rparr>"

section \<open>Proofs\<close>

lemma next_outcome_trace [simp]: "trace (snd (next_outcome w)) = trace w"
  and next_outcome_logged [simp]: "logged (snd (next_outcome w)) = logged w"
  by (auto simp: next_outcome_def split: list.splits)

lemma next_outcome_ok: "io_ok w \<Longrightarrow> \<exists>w'. next_outcome w = (True, w') \<and> io_ok w' \<and> trace w' = trace w \<and> logged w' = logged w"
  by (auto simp: next_outcome_def io_ok_def split: list.splits)

lemma count_channels_eq:
  "count_channels chs (a, b, c) =
     (a + of_nat (logic_channel_count chs), b + of_nat (enabled_logic_count chs),
      c + of_nat (length (enabled_analog chs)))"
proof (induction chs arbitrary: a b c)
  case Nil
  then show ?case
    by (simp add: logic_channel_count_def enabled_logic_count_def enabled_analog_def)
next
  case (Cons ch chs)
  show ?case
  proof (cases "ch_type ch")
    case SR_CHANNEL_LOGIC
    then show ?thesis
      by (simp add: Cons.IH logic_channel_count_def enabled_logic_count_def enabled_analog_def)
  next
    case SR_CHANNEL_ANALOG
    then show ?thesis
      by (simp add: Cons.IH logic_channel_count_def enabled_logic_count_def enabled_analog_def)
  qed
qed

lemma counts_le_length:
  "logic_channel_count chs \<le> length chs"
  "enabled_logic_count chs \<le> length chs"
  "length (enabled_analog chs) \<le> length chs"
  "enabled_logic_count chs \<le> logic_channel_count chs"
  "logic_channel_count chs + length (enabled_analog chs) \<le> length chs"
  unfolding logic_channel_count_def enabled_logic_count_def enabled_analog_def
     apply simp_all
   apply (induction chs; simp)
  apply (induction chs; simp)
  done

lemma unat_guint: "n < 2 ^ 32 \<Longrightarrow> unat (of_nat n :: 32 word) = n"
  by (simp add: unat_of_nat)

lemma guint_pos: "n < 2 ^ 32 \<Longrightarrow> (0 < (of_nat n :: 32 word)) = (0 < n)"
  by (metis unat_guint unat_gt_0 word_neq_0_conv)

lemma unat_guint_Suc: "n + 1 < 2 ^ 32 \<Longrightarrow> unat ((of_nat n :: 32 word) + 1) = n + 1"
  using unat_guint [of "n + 1"] by (simp add: ac_simps)

lemma map_of_kf_set: "map_of (kf_set k v kf) = (map_of kf)(k \<mapsto> v)"
  by (induction kf) auto

lemma name_channels_index:
  "fst (name_channels fai chs (index, amap, meta)) = index + of_nat (length (enabled_analog chs))"
proof (induction chs arbitrary: index amap meta)
  case Nil
  then show ?case by (simp add: enabled_analog_def)
next
  case (Cons ch chs)
  then show ?case
    by (cases "ch_type ch") (simp_all add: enabled_analog_def)
qed

lemma name_channels_amap:
  assumes "i + length (enabled_analog chs) \<le> length amap" "length amap < 2 ^ 32"
  shows "fst (snd (name_channels fai chs (of_nat i, amap, meta))) =
           take i amap @ map ch_index (enabled_analog chs)
             @ drop (i + length (enabled_analog chs)) amap"
  using assms
proof (induction chs arbitrary: i amap meta)
  case Nil
  then show ?case by (simp add: enabled_analog_def)
next
  case (Cons ch chs)
  show ?case
  proof (cases "ch_enabled ch \<and> ch_type ch = SR_CHANNEL_ANALOG")
    case False
    then have ea: "enabled_analog (ch # chs) = enabled_analog chs"
      by (auto simp: enabled_analog_def)
    from False have "name_channels fai (ch # chs) (of_nat i, amap, meta) =
        name_channels fai chs (of_nat i, amap,
          if ch_enabled ch then kf_set (Key_probe (size_of_int (ch_index ch + 1))) (Val_str (ch_name ch)) meta else meta)"
      by (cases "ch_type ch") auto
    with Cons.IH [of i amap] Cons.prems ea show ?thesis by simp
  next
    case True
    then have ea: "enabled_analog (ch # chs) = ch # enabled_analog chs"
      by (auto simp: enabled_analog_def)
    from Cons.prems ea have i: "i < length amap" "i < 2 ^ 32" by auto
    from True i have step: "name_channels fai (ch # chs) (of_nat i, amap, meta) =
        name_channels fai chs (of_nat (Suc i), amap[i := ch_index ch],
          kf_set (Key_analog (fai + i)) (Val_str (ch_name ch)) meta)"
      by (simp add: unat_guint ac_simps)
    have "fst (snd (name_channels fai chs (of_nat (Suc i), amap[i := ch_index ch],
          kf_set (Key_analog (fai + i)) (Val_str (ch_name ch)) meta))) =
        take (Suc i) (amap[i := ch_index ch]) @ map ch_index (enabled_analog chs)
          @ drop (Suc i + length (enabled_analog chs)) (amap[i := ch_index ch])"
      using Cons.prems ea by (intro Cons.IH) auto
    also have "take (Suc i) (amap[i := ch_index ch]) = take i amap @ [ch_index ch]"
      using i by (simp add: take_Suc_conv_app_nth)
    also have "drop (Suc i + length (enabled_analog chs)) (amap[i := ch_index ch]) =
        drop (Suc i + length (enabled_analog chs)) amap"
      by simp
    finally show ?thesis using step ea by simp
  qed
qed

lemma name_channels_meta_other:
  assumes "\<And>n. k \<noteq> Key_probe n" "\<And>n. k \<noteq> Key_analog n"
  shows "map_of (snd (snd (name_channels fai chs (index, amap, meta)))) k = map_of meta k"
proof (induction chs arbitrary: index amap meta)
  case Nil
  then show ?case by simp
next
  case (Cons ch chs)
  then show ?case
    using assms by (cases "ch_type ch") (simp_all add: map_of_kf_set)
qed

lemma name_channels_meta_analog:
  assumes "i + length (enabled_analog chs) < 2 ^ 32"
  shows "map_of (snd (snd (name_channels fai chs (of_nat i, amap, meta)))) (Key_analog n) =
           (if fai + i \<le> n \<and> n < fai + i + length (enabled_analog chs)
            then Some (Val_str (ch_name (enabled_analog chs ! (n - (fai + i)))))
            else map_of meta (Key_analog n))"
  using assms
proof (induction chs arbitrary: i amap meta)
  case Nil
  then show ?case by (auto simp: enabled_analog_def)
next
  case (Cons ch chs)
  show ?case
  proof (cases "ch_enabled ch \<and> ch_type ch = SR_CHANNEL_ANALOG")
    case False
    then have ea: "enabled_analog (ch # chs) = enabled_analog chs"
      by (auto simp: enabled_analog_def)
    from False have "name_channels fai (ch # chs) (of_nat i, amap, meta) =
        name_channels fai chs (of_nat i, amap,
          if ch_enabled ch then kf_set (Key_probe (size_of_int (ch_index ch + 1))) (Val_str (ch_name ch)) meta else meta)"
      by (cases "ch_type ch") auto
    with Cons.IH [of i] Cons.prems ea show ?thesis by (simp add: map_of_kf_set)
  next
    case True
    then have ea: "enabled_analog (ch # chs) = ch # enabled_analog chs"
      by (auto simp: enabled_analog_def)
    from Cons.prems ea have i: "i < 2 ^ 32" "Suc i + length (enabled_analog chs) < 2 ^ 32"
      by auto
    from True i have step: "name_channels fai (ch # chs) (of_nat i, amap, meta) =
        name_channels fai chs (of_nat (Suc i), amap[i := ch_index ch],
          kf_set (Key_analog (fai + i)) (Val_str (ch_name ch)) meta)"
      by (simp add: unat_guint ac_simps)
    show ?thesis
      unfolding step Cons.IH [OF i(2)] ea
      by (auto simp: map_of_kf_set nth_Cons')
  qed
qed

lemma init_analog_buffs_True:
  "init_analog_buffs i n bufs w = (True, bufs', w') \<Longrightarrow>
     length bufs' = length bufs \<and>
     (\<forall>j<length bufs. bufs' ! j =
        (if i \<le> j \<and> j < n
         then \<lparr>ab_alloc_size = CHUNK_SIZE div sizeof_float, ab_samples = (\<lambda>_. 0),
               ab_fill_size = 0, ab_next_chunk_num = 1\<rparr>
         else bufs ! j))"
proof (induction i n bufs w rule: init_analog_buffs.induct)
  case (1 index count bufs w)
  show ?case
  proof (cases "index < count")
    case False
    with "1.prems" show ?thesis by (auto simp: init_analog_buffs.simps)
  next
    case True
    with "1.prems" obtain w1 where m: "g_try_malloc0 CHUNK_SIZE w = (True, w1)"
      and r: "init_analog_buffs (index + 1) count
               (bufs[index := \<lparr>ab_alloc_size = CHUNK_SIZE div sizeof_float,
                               ab_samples = (\<lambda>_. 0),
                               ab_fill_size = 0,
                               ab_next_chunk_num = 1\<rparr>]) w1 = (True, bufs', w')"
      by (subst (asm) init_analog_buffs.simps) (auto split: prod.splits bool.splits)
    from "1.IH" [OF True m [symmetric] refl r] True show ?thesis
      by (auto simp: nth_list_update)
  qed
qed

lemma g_try_malloc0_ok:
  "io_ok w \<Longrightarrow> 0 < n \<Longrightarrow>
     \<exists>w'. g_try_malloc0 n w = (True, w') \<and> io_ok w' \<and> trace w' = trace w \<and> logged w' = logged w"
  using next_outcome_ok [of w] by (simp add: g_try_malloc0_def)

lemma init_analog_buffs_ok:
  "io_ok w \<Longrightarrow>
     \<exists>bufs' w'. init_analog_buffs i n bufs w = (True, bufs', w') \<and> io_ok w' \<and>
        trace w' = trace w \<and> logged w' = logged w"
proof (induction i n bufs w rule: init_analog_buffs.induct)
  case (1 index count bufs w)
  show ?case
  proof (cases "index < count")
    case False
    with "1.prems" show ?thesis by (simp add: init_analog_buffs.simps)
  next
    case True
    from g_try_malloc0_ok [OF "1.prems", of CHUNK_SIZE]
    obtain w1 where m: "g_try_malloc0 CHUNK_SIZE w = (True, w1)" and w1: "io_ok w1"
      "trace w1 = trace w" "logged w1 = logged w"
      by (auto simp: CHUNK_SIZE_def)
    from "1.IH" [OF True m [symmetric] refl w1(1)] m True w1 show ?thesis
      by (subst init_analog_buffs.simps) auto
  qed
qed

lemma gint_of_guint_of_nat: "n < 2 ^ 31 \<Longrightarrow> gint_of_guint (of_nat n) = int n"
  by (simp add: gint_of_guint_def sint_uint signed_take_bit_int_eq_self_iff
      take_bit_nat_eq_self unsigned_of_nat)

lemma dir_create_layout_bounded:
  assumes len: "length (channels d) < 2 ^ 31"
  shows "\<exists>meta. dir_create_layout d c =
           (c\<lparr>first_analog_index := analog_number_base (channels d),
              analog_ch_count := length (enabled_analog (channels d)),
              analog_index_map := map ch_index (enabled_analog (channels d))\<rparr>,
            meta, of_nat (logic_channel_count (channels d))) \<and>
         (\<forall>n. map_of meta (Key_analog n) =
            (if analog_number_base (channels d) \<le> n \<and>
                n < analog_number_base (channels d) + length (enabled_analog (channels d))
             then Some (Val_str (ch_name (enabled_analog (channels d) !
                                  (n - analog_number_base (channels d)))))
             else None)) \<and>
         map_of meta Key_total_analog = Some (Val_int (int (length (enabled_analog (channels d))))) \<and>
         map_of meta Key_total_probes =
           (if enabled_logic_count (channels d) > 0
            then Some (Val_int (int (logic_channel_count (channels d)))) else None) \<and>
         map_of meta Key_unitsize = None"
proof -
  let ?chs = "channels d"
  let ?L = "logic_channel_count ?chs" and ?E = "enabled_logic_count ?chs"
  let ?A = "length (enabled_analog ?chs)"
  from len counts_le_length [of ?chs]
  have b: "?L < 2 ^ 31" "?E < 2 ^ 31" "?A < 2 ^ 31" "?L + 1 < 2 ^ 32" "?E < 2 ^ 32" "?A < 2 ^ 32"
    by auto
  have fai: "(if 0 < (of_nat ?E :: 32 word) then unat (of_nat ?L + 1 :: 32 word) else 1) =
      analog_number_base ?chs"
    using b by (simp add: guint_pos unat_guint_Suc analog_number_base_def)
  have A: "unat (of_nat ?A :: 32 word) = ?A"
    using b by (simp add: unat_guint)
  obtain idx amap meta where nc:
    "name_channels (analog_number_base ?chs) ?chs
       (of_nat 0, replicate ?A 0,
        kf_set Key_total_analog (Val_int (gint_of_guint (of_nat ?A)))
          (kf_set Key_samplerate (Val_rate (samplerate c))
            (if 0 < (of_nat ?E :: 32 word)
             then kf_set Key_total_probes (Val_int (gint_of_guint (of_nat ?L)))
                    (kf_set Key_capturefile (Val_str ''logic-1'')
                      (kf_set Key_sigrok_version Val_package_version []))
             else kf_set Key_sigrok_version Val_package_version []))) = (idx, amap, meta)"
    (is "name_channels _ _ (_, _, ?meta3) = _")
    by (cases "name_channels (analog_number_base ?chs) ?chs (of_nat 0, replicate ?A 0, ?meta3)")
  have eq: "dir_create_layout d c =
      (c\<lparr>first_analog_index := analog_number_base ?chs, analog_ch_count := ?A,
         analog_index_map := amap\<rparr>, meta, of_nat ?L)"
    using nc by (simp add: dir_create_layout_def count_channels_eq Let_def fai A split: if_splits)
  have amap: "amap = map ch_index (enabled_analog ?chs)"
    using name_channels_amap [of 0 ?chs "replicate ?A 0" "analog_number_base ?chs" ?meta3] nc b
    by simp
  have m_an: "map_of meta (Key_analog n) =
      (if analog_number_base ?chs \<le> n \<and> n < analog_number_base ?chs + ?A
       then Some (Val_str (ch_name (enabled_analog ?chs ! (n - analog_number_base ?chs))))
       else None)" for n
    using name_channels_meta_analog [of 0 ?chs "analog_number_base ?chs" "replicate ?A 0" ?meta3 n]
      nc b by (simp add: map_of_kf_set)
  have m_other: "map_of meta k = map_of ?meta3 k"
    if "\<And>n. k \<noteq> Key_probe n" "\<And>n. k \<noteq> Key_analog n" for k
    using name_channels_meta_other [OF that, of "analog_number_base ?chs" ?chs "of_nat 0"
        "replicate ?A 0" ?meta3] nc by simp
  have "map_of meta Key_total_analog = Some (Val_int (int ?A))"
    using b by (simp add: m_other map_of_kf_set gint_of_guint_of_nat)
  moreover have "map_of meta Key_total_probes =
      (if ?E > 0 then Some (Val_int (int ?L)) else None)"
    using b by (simp add: m_other map_of_kf_set gint_of_guint_of_nat guint_pos)
  moreover have "map_of meta Key_unitsize = None"
    by (simp add: m_other map_of_kf_set)
  ultimately show ?thesis
    using eq amap m_an by simp
qed

lemma dir_create_SR_OK_D:
  assumes "dir_create d outc0 w0 = (SR_OK, outc', w')"
  obtains outc1 w1 w2 w3 w4 outc4 meta4 lc w5 bufs w6 w7 where
    "outc1 = (if samplerate outc0 = 0
              then (case conf_samplerate d of Some r \<Rightarrow> outc0\<lparr>samplerate := r\<rparr> | None \<Rightarrow> outc0)
              else outc0)"
    "g_mkdir (filename outc1) w0 = (True, w1)"
    "g_chdir (filename outc1) w1 = (True, w2)"
    "g_fopen File_version w2 = (True, w3)"
    "fwrite1 File_version (Bytes [0x32]) w3 = (True, w4)"
    "dir_create_layout d outc1 = (outc4, meta4, lc)"
    "g_try_malloc0 CHUNK_SIZE w4 = (True, w5)"
    "init_analog_buffs 0 (analog_ch_count outc4)
       (replicate (analog_ch_count outc4) zero_analog_buffer) w5 = (True, bufs, w6)"
    "g_fopen File_metadata w6 = (True, w7)"
    "fwrite1 File_metadata
       (Keyfile (if (unat lc + 7) div 8 > 0
                 then kf_set Key_unitsize (Val_int (gint_of_size ((unat lc + 7) div 8))) meta4
                 else meta4)) w7 = (True, w')"
    "outc' = outc4\<lparr>logic_buff :=
                \<lparr>lb_unit_size = (unat lc + 7) div 8,
                 lb_alloc_size = (if (unat lc + 7) div 8 \<noteq> 0
                                  then CHUNK_SIZE div ((unat lc + 7) div 8) else CHUNK_SIZE),
                 lb_samples = (\<lambda>_. 0),
                 lb_fill_size = 0,
                 lb_next_chunk_num = 1\<rparr>,
              analog_buff := bufs\<rparr>"
  using assms
  by (simp add: dir_create_def Let_def split: prod.splits bool.splits split del: if_split)

lemma g_mkdir_D:
  "g_mkdir dir w = (ok, w') \<Longrightarrow> trace w' = trace w @ [Ev_mkdir dir ok] \<and> logged w' = logged w"
  by (auto simp: g_mkdir_def next_outcome_def emit_def split: list.splits prod.splits)

lemma g_chdir_D:
  "g_chdir dir w = (ok, w') \<Longrightarrow> trace w' = trace w @ [Ev_chdir dir ok] \<and> logged w' = logged w"
  by (auto simp: g_chdir_def next_outcome_def emit_def split: list.splits prod.splits)

lemma g_fopen_D:
  "g_fopen f w = (ok, w') \<Longrightarrow> trace w' = trace w @ [Ev_fopen f ok] \<and> logged w' = logged w"
  by (auto simp: g_fopen_def next_outcome_def emit_def split: list.splits prod.splits)

lemma fwrite1_D:
  "fwrite1 f c w = (ok, w') \<Longrightarrow>
     trace w' = trace w @ [Ev_fwrite f c ok] \<and> logged w' = logged w \<and> (ok \<longrightarrow> 0 < content_size c)"
  by (auto simp: fwrite1_def next_outcome_def emit_def split: list.splits prod.splits if_splits)

lemma g_try_malloc0_D:
  "g_try_malloc0 n w = (ok, w') \<Longrightarrow> trace w' = trace w \<and> logged w' = logged w"
  by (auto simp: g_try_malloc0_def next_outcome_def split: list.splits prod.splits if_splits)

lemma init_analog_buffs_D:
  "init_analog_buffs i n bufs w = (ok, bufs', w') \<Longrightarrow> trace w' = trace w \<and> logged w' = logged w"
proof (induction i n bufs w rule: init_analog_buffs.induct)
  case (1 index count bufs w)
  show ?case
  proof (cases "index < count")
    case False
    with "1.prems" show ?thesis by (simp add: init_analog_buffs.simps)
  next
    case True
    obtain b w1 where m: "g_try_malloc0 CHUNK_SIZE w = (b, w1)"
      by (cases "g_try_malloc0 CHUNK_SIZE w")
    show ?thesis
    proof (cases b)
      case False
      with "1.prems" True m g_try_malloc0_D [OF m] show ?thesis
        by (subst (asm) init_analog_buffs.simps) simp
    next
      case b: True
      with "1.prems" True m have "init_analog_buffs (index + 1) count
               (bufs[index := \<lparr>ab_alloc_size = CHUNK_SIZE div sizeof_float,
                               ab_samples = (\<lambda>_. 0),
                               ab_fill_size = 0,
                               ab_next_chunk_num = 1\<rparr>]) w1 = (ok, bufs', w')"
        by (subst (asm) init_analog_buffs.simps) simp
      from "1.IH" [OF True _ refl this] m b g_try_malloc0_D [OF m] show ?thesis
        by simp
    qed
  qed
qed

lemma dir_create_SR_OK_bounded:
  assumes len: "length (channels d) < 2 ^ 31"
    and ok: "dir_create d outc0 w0 = (SR_OK, outc', w')"
  shows "\<exists>meta.
      outc' = outc0\<lparr>samplerate :=
                   (if samplerate outc0 = 0
                    then (case conf_samplerate d of Some r \<Rightarrow> r | None \<Rightarrow> 0)
                    else samplerate outc0),
                 first_analog_index := analog_number_base (channels d),
                 analog_ch_count := length (enabled_analog (channels d)),
                 analog_index_map := map ch_index (enabled_analog (channels d)),
                 logic_buff := fresh_logic_buffer (logic_channel_count (channels d)),
                 analog_buff := replicate (length (enabled_analog (channels d))) fresh_analog_buffer\<rparr> \<and>
      trace w' = trace w0 @
        [Ev_mkdir (filename outc0) True, Ev_chdir (filename outc0) True,
         Ev_fopen File_version True, Ev_fwrite File_version (Bytes [0x32]) True,
         Ev_fopen File_metadata True, Ev_fwrite File_metadata (Keyfile meta) True] \<and>
      logged w' = logged w0 \<and>
      (\<forall>n. map_of meta (Key_analog n) =
            (if analog_number_base (channels d) \<le> n \<and>
                n < analog_number_base (channels d) + length (enabled_analog (channels d))
             then Some (Val_str (ch_name (enabled_analog (channels d) !
                                  (n - analog_number_base (channels d)))))
             else None)) \<and>
      map_of meta Key_total_analog = Some (Val_int (int (length (enabled_analog (channels d))))) \<and>
      map_of meta Key_total_probes =
           (if enabled_logic_count (channels d) > 0
            then Some (Val_int (int (logic_channel_count (channels d)))) else None)"
proof -
  let ?chs = "channels d"
  let ?L = "logic_channel_count ?chs" and ?A = "length (enabled_analog ?chs)"
  from ok obtain outc1 w1 w2 w3 w4 outc4 meta4 lc w5 bufs w6 w7 where
    o1: "outc1 = (if samplerate outc0 = 0
              then (case conf_samplerate d of Some r \<Rightarrow> outc0\<lparr>samplerate := r\<rparr> | None \<Rightarrow> outc0)
              else outc0)"
    and io: "g_mkdir (filename outc1) w0 = (True, w1)"
    "g_chdir (filename outc1) w1 = (True, w2)"
    "g_fopen File_version w2 = (True, w3)"
    "fwrite1 File_version (Bytes [0x32]) w3 = (True, w4)"
    and lay: "dir_create_layout d outc1 = (outc4, meta4, lc)"
    and io2: "g_try_malloc0 CHUNK_SIZE w4 = (True, w5)"
    "init_analog_buffs 0 (analog_ch_count outc4)
       (replicate (analog_ch_count outc4) zero_analog_buffer) w5 = (True, bufs, w6)"
    "g_fopen File_metadata w6 = (True, w7)"
    and wr: "fwrite1 File_metadata
       (Keyfile (if (unat lc + 7) div 8 > 0
                 then kf_set Key_unitsize (Val_int (gint_of_size ((unat lc + 7) div 8))) meta4
                 else meta4)) w7 = (True, w')"
    and o': "outc' = outc4\<lparr>logic_buff :=
                \<lparr>lb_unit_size = (unat lc + 7) div 8,
                 lb_alloc_size = (if (unat lc + 7) div 8 \<noteq> 0
                                  then CHUNK_SIZE div ((unat lc + 7) div 8) else CHUNK_SIZE),
                 lb_samples = (\<lambda>_. 0),
                 lb_fill_size = 0,
                 lb_next_chunk_num = 1\<rparr>,
              analog_buff := bufs\<rparr>"
    by (rule dir_create_SR_OK_D)
  let ?meta = "if (unat lc + 7) div 8 > 0
                 then kf_set Key_unitsize (Val_int (gint_of_size ((unat lc + 7) div 8))) meta4
                 else meta4"
  from dir_create_layout_bounded [OF len, of outc1] lay
  have o4: "outc4 = outc1\<lparr>first_analog_index := analog_number_base ?chs,
              analog_ch_count := ?A, analog_index_map := map ch_index (enabled_analog ?chs)\<rparr>"
    and lc: "lc = of_nat ?L"
    and m4: "\<And>n. map_of meta4 (Key_analog n) =
            (if analog_number_base ?chs \<le> n \<and> n < analog_number_base ?chs + ?A
             then Some (Val_str (ch_name (enabled_analog ?chs ! (n - analog_number_base ?chs))))
             else None)"
      "map_of meta4 Key_total_analog = Some (Val_int (int ?A))"
      "map_of meta4 Key_total_probes =
           (if enabled_logic_count ?chs > 0 then Some (Val_int (int ?L)) else None)"
    by auto
  from len counts_le_length(1) [of ?chs] have "?L < 2 ^ 32" by simp
  then have ulc: "unat lc = ?L" by (simp add: lc unat_guint)
  have fn: "filename outc1 = filename outc0"
    by (simp add: o1 split: option.splits)
  have A4: "analog_ch_count outc4 = ?A" by (simp add: o4)
  from init_analog_buffs_True [OF io2(2)] have bufs: "bufs = replicate ?A fresh_analog_buffer"
    by (auto simp: A4 list_eq_iff_nth_eq fresh_analog_buffer_def)
  have "outc' = outc0\<lparr>samplerate :=
                   (if samplerate outc0 = 0
                    then (case conf_samplerate d of Some r \<Rightarrow> r | None \<Rightarrow> 0)
                    else samplerate outc0),
                 first_analog_index := analog_number_base ?chs,
                 analog_ch_count := ?A,
                 analog_index_map := map ch_index (enabled_analog ?chs),
                 logic_buff := fresh_logic_buffer ?L,
                 analog_buff := replicate ?A fresh_analog_buffer\<rparr>"
    by (simp add: o' o4 bufs ulc fresh_logic_buffer_def o1 split: option.splits)
  moreover have "trace w' = trace w0 @
        [Ev_mkdir (filename outc0) True, Ev_chdir (filename outc0) True,
         Ev_fopen File_version True, Ev_fwrite File_version (Bytes [0x32]) True,
         Ev_fopen File_metadata True, Ev_fwrite File_metadata (Keyfile ?meta) True]"
    and "logged w' = logged w0"
    using g_mkdir_D [OF io(1)] g_chdir_D [OF io(2)] g_fopen_D [OF io(3)] fwrite1_D [OF io(4)]
      g_try_malloc0_D [OF io2(1)] init_analog_buffs_D [OF io2(2)] g_fopen_D [OF io2(3)]
      fwrite1_D [OF wr] by (simp_all add: fn)
  moreover have "map_of ?meta (Key_analog n) = map_of meta4 (Key_analog n)" for n
    by (simp add: map_of_kf_set)
  moreover have "map_of ?meta Key_total_analog = map_of meta4 Key_total_analog"
    "map_of ?meta Key_total_probes = map_of meta4 Key_total_probes"
    by (simp_all add: map_of_kf_set)
  ultimately show ?thesis
    using m4 by (intro exI [of _ ?meta]) (simp only: simp_thms)
qed

lemma g_mkdir_ok:
  "io_ok w \<Longrightarrow> \<exists>w'. g_mkdir dir w = (True, w') \<and> io_ok w'"
  using next_outcome_ok [of w] by (auto simp: g_mkdir_def emit_def io_ok_def)

lemma g_chdir_ok:
  "io_ok w \<Longrightarrow> \<exists>w'. g_chdir dir w = (True, w') \<and> io_ok w'"
  using next_outcome_ok [of w] by (auto simp: g_chdir_def emit_def io_ok_def)

lemma g_fopen_ok:
  "io_ok w \<Longrightarrow> \<exists>w'. g_fopen f w = (True, w') \<and> io_ok w'"
  using next_outcome_ok [of w] by (auto simp: g_fopen_def emit_def io_ok_def)

lemma fwrite1_ok:
  "io_ok w \<Longrightarrow> 0 < content_size c \<Longrightarrow> \<exists>w'. fwrite1 f c w = (True, w') \<and> io_ok w'"
  using next_outcome_ok [of w] by (auto simp: fwrite1_def emit_def io_ok_def)

lemma dir_create_io_ok:
  assumes "io_ok w0"
  shows "\<exists>outc' w'. dir_create d outc0 w0 = (SR_OK, outc', w') \<and> io_ok w'"
proof -
  define outc1 where "outc1 = (if samplerate outc0 = 0
              then (case conf_samplerate d of Some r \<Rightarrow> outc0\<lparr>samplerate := r\<rparr> | None \<Rightarrow> outc0)
              else outc0)"
  obtain outc4 meta4 lc where lay: "dir_create_layout d outc1 = (outc4, meta4, lc)"
    by (cases "dir_create_layout d outc1")
  define meta where "meta = (if (unat lc + 7) div 8 > 0
                 then kf_set Key_unitsize (Val_int (gint_of_size ((unat lc + 7) div 8))) meta4
                 else meta4)"
  from assms g_mkdir_ok obtain w1 where 1: "g_mkdir (filename outc1) w0 = (True, w1)" "io_ok w1"
    by blast
  from 1 g_chdir_ok obtain w2 where 2: "g_chdir (filename outc1) w1 = (True, w2)" "io_ok w2"
    by blast
  from 2 g_fopen_ok obtain w3 where 3: "g_fopen File_version w2 = (True, w3)" "io_ok w3"
    by blast
  from 3 fwrite1_ok [of w3 "Bytes [0x32]"] obtain w4 where
    4: "fwrite1 File_version (Bytes [0x32]) w3 = (True, w4)" "io_ok w4"
    by auto
  from 4 g_try_malloc0_ok [of w4 CHUNK_SIZE] obtain w5 where
    5: "g_try_malloc0 CHUNK_SIZE w4 = (True, w5)" "io_ok w5"
    by (auto simp: CHUNK_SIZE_def)
  from 5 init_analog_buffs_ok [of w5] obtain bufs w6 where
    6: "init_analog_buffs 0 (analog_ch_count outc4)
          (replicate (analog_ch_count outc4) zero_analog_buffer) w5 = (True, bufs, w6)" "io_ok w6"
    by blast
  from 6 g_fopen_ok obtain w7 where 7: "g_fopen File_metadata w6 = (True, w7)" "io_ok w7"
    by blast
  from 7 fwrite1_ok [of w7 "Keyfile meta"] obtain w8 where
    8: "fwrite1 File_metadata (Keyfile meta) w7 = (True, w8)" "io_ok w8"
    by auto
  from 1 2 3 4 lay 5 6 7 8 show ?thesis
    by (simp add: dir_create_def Let_def flip: outc1_def meta_def)
qed

lemma io_ok_ex_world: "io_ok ex_world"
  by (simp add: io_ok_def ex_world_def)

lemma counts_ex_dev17:
  "logic_channel_count (channels ex_dev17) = 17"
  "length (channels ex_dev17) = 17"
  by (simp_all add: ex_dev17_def logic_channel_count_def logic_ch_def comp_def)

lemma counts_ex_dev:
  "logic_channel_count (channels ex_dev) = 3"
  "enabled_logic_count (channels ex_dev) = 2"
  "enabled_analog (channels ex_dev) = [analog_ch 3, analog_ch 5]"
  "length (channels ex_dev) = 6"
  by (simp_all add: ex_dev_def logic_channel_count_def enabled_logic_count_def enabled_analog_def
      logic_ch_def analog_ch_def)

lemma map_const_replicate:
  "\<forall>b \<in> set bs. f b = c \<Longrightarrow> map f bs = replicate (length bs) c"
  by (induction bs) simp_all

lemma counts_ex_dev_analog:
  "logic_channel_count (channels ex_dev_analog) = 0"
  "enabled_analog (channels ex_dev_analog) = [analog_ch 0]"
  "length (channels ex_dev_analog) = 1"
  by (simp_all add: ex_dev_analog_def logic_channel_count_def enabled_analog_def analog_ch_def)

text \<open>
  C5 (as amended): a successful directory initialisation sets the logic unit size to
  \<open>ceil(L / 8)\<close>. When there is a logic channel (\<open>L > 0\<close>), the capacity of the logic
  buffer is \<open>floor(4 MiB / unit_size)\<close> samples: capacity times unit size is the largest
  multiple of the unit size within 4 MiB, and it is 4 MiB exactly when the unit size
  divides 4 MiB. Without a logic channel the unit size is 0 and the capacity stays
  4194304. Whatever \<open>L\<close> is, there is one analog buffer per enabled analog channel, and
  every one of them holds 4 MiB divided by the size of a float, 1048576 samples.
\<close>

theorem dir_create_buffer_capacity:
  assumes "length (channels d) < 2 ^ 31"
    and "dir_create d outc0 w0 = (SR_OK, outc', w')"
  shows "lb_unit_size (logic_buff outc') = (logic_channel_count (channels d) + 7) div 8 \<and>
         (0 < logic_channel_count (channels d) \<longrightarrow>
            0 < lb_unit_size (logic_buff outc') \<and>
            lb_alloc_size (logic_buff outc') = 4194304 div lb_unit_size (logic_buff outc') \<and>
            lb_alloc_size (logic_buff outc') * lb_unit_size (logic_buff outc') \<le> 4194304 \<and>
            4194304 < (lb_alloc_size (logic_buff outc') + 1) * lb_unit_size (logic_buff outc') \<and>
            ((lb_alloc_size (logic_buff outc') * lb_unit_size (logic_buff outc') = 4194304) =
               (lb_unit_size (logic_buff outc') dvd 4194304))) \<and>
         (logic_channel_count (channels d) = 0 \<longrightarrow>
            lb_unit_size (logic_buff outc') = 0 \<and> lb_alloc_size (logic_buff outc') = 4194304) \<and>
         length (analog_buff outc') = length (enabled_analog (channels d)) \<and>
         (\<forall>b \<in> set (analog_buff outc').
            ab_alloc_size b = 1048576 \<and> ab_alloc_size b * sizeof_float = 4194304)"
proof -
  let ?L = "logic_channel_count (channels d)"
  let ?u = "(?L + 7) div 8"
  from dir_create_SR_OK_bounded [OF assms]
  have lb: "logic_buff outc' = fresh_logic_buffer ?L"
    and ab: "analog_buff outc' = replicate (length (enabled_analog (channels d))) fresh_analog_buffer"
    by auto
  have analog: "length (analog_buff outc') = length (enabled_analog (channels d)) \<and>
         (\<forall>b \<in> set (analog_buff outc').
            ab_alloc_size b = 1048576 \<and> ab_alloc_size b * sizeof_float = 4194304)"
    by (simp add: ab fresh_analog_buffer_def CHUNK_SIZE_def sizeof_float_def)
  have unit: "lb_unit_size (logic_buff outc') = ?u"
    by (simp add: lb fresh_logic_buffer_def)
  have none: "?L = 0 \<longrightarrow>
      lb_unit_size (logic_buff outc') = 0 \<and> lb_alloc_size (logic_buff outc') = 4194304"
    by (simp add: lb fresh_logic_buffer_def CHUNK_SIZE_def)
  have some: "0 < lb_unit_size (logic_buff outc') \<and>
        lb_alloc_size (logic_buff outc') = 4194304 div lb_unit_size (logic_buff outc') \<and>
        lb_alloc_size (logic_buff outc') * lb_unit_size (logic_buff outc') \<le> 4194304 \<and>
        4194304 < (lb_alloc_size (logic_buff outc') + 1) * lb_unit_size (logic_buff outc') \<and>
        ((lb_alloc_size (logic_buff outc') * lb_unit_size (logic_buff outc') = 4194304) =
           (lb_unit_size (logic_buff outc') dvd 4194304))"
    if L: "0 < ?L"
  proof -
    from L have u: "0 < ?u" by simp
    have "4194304 div ?u * ?u \<le> (4194304::nat)"
      by simp
    moreover have "(4194304::nat) < (4194304 div ?u + 1) * ?u"
      using u dividend_less_div_times [of ?u 4194304] by (simp add: algebra_simps)
    moreover have "(4194304 div ?u * ?u = (4194304::nat)) = (?u dvd 4194304)"
      by (metis dvd_div_mult_self dvd_triv_right)
    ultimately show ?thesis
      using u by (simp add: lb fresh_logic_buffer_def CHUNK_SIZE_def)
  qed
  from unit some none analog show ?thesis
    by blast
qed

theorem dir_create_buffer_capacity_witness:
  "lb_unit_size (logic_buff (fst (snd (dir_create ex_dev ex_context ex_world)))) = 1 \<and>
   lb_alloc_size (logic_buff (fst (snd (dir_create ex_dev ex_context ex_world)))) = 4194304 \<and>
   map ab_alloc_size (analog_buff (fst (snd (dir_create ex_dev ex_context ex_world)))) =
     [1048576, 1048576] \<and>
   lb_unit_size (logic_buff (fst (snd (dir_create ex_dev_analog ex_context ex_world)))) = 0 \<and>
   map ab_alloc_size (analog_buff (fst (snd (dir_create ex_dev_analog ex_context ex_world)))) =
     [1048576]"
proof -
  from dir_create_io_ok [OF io_ok_ex_world] obtain outc' w' where
    ok: "dir_create ex_dev ex_context ex_world = (SR_OK, outc', w')"
    by blast
  from dir_create_io_ok [OF io_ok_ex_world] obtain outc'' w'' where
    ok': "dir_create ex_dev_analog ex_context ex_world = (SR_OK, outc'', w'')"
    by blast
  have len: "length (channels ex_dev) < 2 ^ 31" "length (channels ex_dev_analog) < 2 ^ 31"
    by (simp_all add: counts_ex_dev counts_ex_dev_analog)
  note t = dir_create_buffer_capacity [OF len(1) ok]
  note t' = dir_create_buffer_capacity [OF len(2) ok']
  have "lb_unit_size (logic_buff outc') = 1"
    using t by (simp add: counts_ex_dev)
  moreover have "lb_alloc_size (logic_buff outc') = 4194304"
    using t by (simp add: counts_ex_dev)
  moreover have "length (analog_buff outc') = 2"
    using t by (simp add: counts_ex_dev)
  moreover have "map ab_alloc_size (analog_buff outc') =
      replicate (length (analog_buff outc')) 1048576"
    by (rule map_const_replicate) (use t in simp)
  moreover have "lb_unit_size (logic_buff outc'') = 0"
    using t' by (simp add: counts_ex_dev_analog)
  moreover have "length (analog_buff outc'') = 1"
    using t' by (simp add: counts_ex_dev_analog)
  moreover have "map ab_alloc_size (analog_buff outc'') =
      replicate (length (analog_buff outc'')) 1048576"
    by (rule map_const_replicate) (use t' in simp)
  ultimately show ?thesis
    by (simp add: ok ok' numeral_2_eq_2)
qed

theorem dir_create_capacity_not_4MiB:
  "fst (dir_create ex_dev17 ex_context ex_world) = SR_OK \<and>
   lb_unit_size (logic_buff (fst (snd (dir_create ex_dev17 ex_context ex_world)))) = 3 \<and>
   lb_alloc_size (logic_buff (fst (snd (dir_create ex_dev17 ex_context ex_world)))) *
     lb_unit_size (logic_buff (fst (snd (dir_create ex_dev17 ex_context ex_world)))) = 4194303"
proof -
  from dir_create_io_ok [OF io_ok_ex_world] obtain outc' w' where
    ok: "dir_create ex_dev17 ex_context ex_world = (SR_OK, outc', w')"
    by blast
  have "length (channels ex_dev17) < 2 ^ 31"
    by (simp add: counts_ex_dev17)
  from dir_create_SR_OK_bounded [OF this ok]
  have "logic_buff outc' = fresh_logic_buffer 17"
    by (auto simp: counts_ex_dev17)
  then show ?thesis
    by (simp add: ok fresh_logic_buffer_def CHUNK_SIZE_def)
qed

text \<open>
  C2: for a channel list with \<open>L\<close> logic channels, \<open>E\<close> of them enabled, and \<open>A\<close>
  enabled analog channels, a successful directory initialisation sets
  \<open>first_analog_index\<close> to \<open>L + 1\<close> if \<open>E > 0\<close> and to 1 otherwise, records the channel
  index of the \<open>k\<close>-th enabled analog channel in slot \<open>k\<close> of the index map, and names
  that channel \<open>analog<first_analog_index + k>\<close> in the metadata it writes; no other
  analog number is assigned. The metadata carries the counts (\<open>total analog = A\<close>, and
  \<open>total probes = L\<close> exactly when \<open>E > 0\<close>). For the empty channel list the counts are
  zero and \<open>first_analog_index\<close> is 1. The channel count is one that a \<^verbatim>\<open>gint\<close> holds.
\<close>

theorem dir_create_channel_layout:
  assumes "length (channels d) < 2 ^ 31"
    and "dir_create d outc0 w0 = (SR_OK, outc', w')"
  shows "first_analog_index outc' =
           (if enabled_logic_count (channels d) > 0 then logic_channel_count (channels d) + 1 else 1) \<and>
         analog_ch_count outc' = length (enabled_analog (channels d)) \<and>
         analog_index_map outc' = map ch_index (enabled_analog (channels d)) \<and>
         (\<exists>meta. last (trace w') = Ev_fwrite File_metadata (Keyfile meta) True \<and>
            (\<forall>n. map_of meta (Key_analog n) =
               (if first_analog_index outc' \<le> n \<and>
                   n < first_analog_index outc' + length (enabled_analog (channels d))
                then Some (Val_str (ch_name (enabled_analog (channels d) !
                                     (n - first_analog_index outc'))))
                else None)) \<and>
            map_of meta Key_total_analog =
              Some (Val_int (int (length (enabled_analog (channels d))))) \<and>
            map_of meta Key_total_probes =
              (if enabled_logic_count (channels d) > 0
               then Some (Val_int (int (logic_channel_count (channels d)))) else None)) \<and>
         (channels d = [] \<longrightarrow>
            first_analog_index outc' = 1 \<and> analog_ch_count outc' = 0 \<and>
            analog_index_map outc' = [])"
proof -
  from dir_create_SR_OK_bounded [OF assms] obtain meta where
    o': "outc' = outc0\<lparr>samplerate :=
                   (if samplerate outc0 = 0
                    then (case conf_samplerate d of Some r \<Rightarrow> r | None \<Rightarrow> 0)
                    else samplerate outc0),
                 first_analog_index := analog_number_base (channels d),
                 analog_ch_count := length (enabled_analog (channels d)),
                 analog_index_map := map ch_index (enabled_analog (channels d)),
                 logic_buff := fresh_logic_buffer (logic_channel_count (channels d)),
                 analog_buff := replicate (length (enabled_analog (channels d))) fresh_analog_buffer\<rparr>"
    and tr: "trace w' = trace w0 @
        [Ev_mkdir (filename outc0) True, Ev_chdir (filename outc0) True,
         Ev_fopen File_version True, Ev_fwrite File_version (Bytes [0x32]) True,
         Ev_fopen File_metadata True, Ev_fwrite File_metadata (Keyfile meta) True]"
    and m: "\<forall>n. map_of meta (Key_analog n) =
            (if analog_number_base (channels d) \<le> n \<and>
                n < analog_number_base (channels d) + length (enabled_analog (channels d))
             then Some (Val_str (ch_name (enabled_analog (channels d) !
                                  (n - analog_number_base (channels d)))))
             else None)"
      "map_of meta Key_total_analog = Some (Val_int (int (length (enabled_analog (channels d)))))"
      "map_of meta Key_total_probes =
           (if enabled_logic_count (channels d) > 0
            then Some (Val_int (int (logic_channel_count (channels d)))) else None)"
    by blast
  have fai: "first_analog_index outc' = analog_number_base (channels d)"
    by (simp add: o')
  have "last (trace w') = Ev_fwrite File_metadata (Keyfile meta) True"
    by (simp add: tr)
  with m have "\<exists>meta. last (trace w') = Ev_fwrite File_metadata (Keyfile meta) True \<and>
            (\<forall>n. map_of meta (Key_analog n) =
               (if first_analog_index outc' \<le> n \<and>
                   n < first_analog_index outc' + length (enabled_analog (channels d))
                then Some (Val_str (ch_name (enabled_analog (channels d) !
                                     (n - first_analog_index outc'))))
                else None)) \<and>
            map_of meta Key_total_analog =
              Some (Val_int (int (length (enabled_analog (channels d))))) \<and>
            map_of meta Key_total_probes =
              (if enabled_logic_count (channels d) > 0
               then Some (Val_int (int (logic_channel_count (channels d)))) else None)"
    unfolding fai by blast
  moreover have "first_analog_index outc' =
      (if enabled_logic_count (channels d) > 0 then logic_channel_count (channels d) + 1 else 1)"
    by (simp add: fai analog_number_base_def)
  moreover have "analog_ch_count outc' = length (enabled_analog (channels d))"
    "analog_index_map outc' = map ch_index (enabled_analog (channels d))"
    by (simp_all add: o')
  moreover have "channels d = [] \<longrightarrow>
            first_analog_index outc' = 1 \<and> analog_ch_count outc' = 0 \<and>
            analog_index_map outc' = []"
    by (simp add: o' analog_number_base_def enabled_logic_count_def enabled_analog_def)
  ultimately show ?thesis
    by (simp only: simp_thms)
qed

theorem dir_create_channel_layout_witness:
  "fst (dir_create ex_dev ex_context ex_world) = SR_OK \<and>
   first_analog_index (fst (snd (dir_create ex_dev ex_context ex_world))) = 4 \<and>
   analog_ch_count (fst (snd (dir_create ex_dev ex_context ex_world))) = 2 \<and>
   analog_index_map (fst (snd (dir_create ex_dev ex_context ex_world))) = [3, 5]"
proof -
  from dir_create_io_ok [OF io_ok_ex_world] obtain outc' w' where
    ok: "dir_create ex_dev ex_context ex_world = (SR_OK, outc', w')"
    by blast
  have "length (channels ex_dev) < 2 ^ 31"
    by (simp add: counts_ex_dev)
  from dir_create_channel_layout [OF this ok] show ?thesis
    by (simp add: ok counts_ex_dev analog_ch_def)
qed

lemma ensure_dir_ex:
  "fst (ensure_dir ex_dev ex_context ex_world) = SR_OK \<and>
   fst (snd (ensure_dir ex_dev ex_context ex_world)) = ex_ready"
proof -
  from dir_create_io_ok [OF io_ok_ex_world] obtain outc' w' where
    ok: "dir_create ex_dev ex_context ex_world = (SR_OK, outc', w')"
    by blast
  have "length (channels ex_dev) < 2 ^ 31"
    by (simp add: counts_ex_dev)
  moreover have "conf_samplerate ex_dev = Some 1000000"
    by (simp add: ex_dev_def)
  ultimately have "outc'\<lparr>dir_created := True\<rparr> = ex_ready"
    using dir_create_SR_OK_bounded [OF _ ok]
    by (auto simp: counts_ex_dev ex_ready_def ex_context_def analog_number_base_def analog_ch_def
        numeral_2_eq_2)
  moreover have "\<not> dir_created ex_context"
    by (simp add: ex_context_def)
  ultimately show ?thesis
    by (simp add: ensure_dir_def ok)
qed

lemma counts_ex_dev9:
  "logic_channel_count (channels ex_dev9) = 9"
  "enabled_logic_count (channels ex_dev9) = 9"
  "enabled_analog (channels ex_dev9) = []"
  "length (channels ex_dev9) = 9"
  by (simp_all add: ex_dev9_def logic_channel_count_def enabled_logic_count_def
      enabled_analog_def logic_ch_def comp_def)

lemma ensure_dir_ex9:
  "fst (ensure_dir ex_dev9 ex_context ex_world) = SR_OK \<and>
   fst (snd (ensure_dir ex_dev9 ex_context ex_world)) = ex_ready9"
proof -
  from dir_create_io_ok [OF io_ok_ex_world] obtain outc' w' where
    ok: "dir_create ex_dev9 ex_context ex_world = (SR_OK, outc', w')"
    by blast
  have "length (channels ex_dev9) < 2 ^ 31"
    by (simp add: counts_ex_dev9)
  moreover have "conf_samplerate ex_dev9 = None"
    by (simp add: ex_dev9_def)
  ultimately have "outc'\<lparr>dir_created := True\<rparr> = ex_ready9"
    using dir_create_SR_OK_bounded [OF _ ok]
    by (auto simp: counts_ex_dev9 ex_ready9_def ex_context_def analog_number_base_def)
  moreover have "\<not> dir_created ex_context"
    by (simp add: ex_context_def)
  ultimately show ?thesis
    by (simp add: ensure_dir_def ok)
qed

lemma ensure_dir_ex_analog:
  "fst (ensure_dir ex_dev_analog ex_context ex_world) = SR_OK \<and>
   fst (snd (ensure_dir ex_dev_analog ex_context ex_world)) = ex_ready_analog"
proof -
  from dir_create_io_ok [OF io_ok_ex_world] obtain outc' w' where
    ok: "dir_create ex_dev_analog ex_context ex_world = (SR_OK, outc', w')"
    by blast
  have "length (channels ex_dev_analog) < 2 ^ 31"
    by (simp add: counts_ex_dev_analog)
  moreover have "conf_samplerate ex_dev_analog = None"
    by (simp add: ex_dev_analog_def)
  moreover have "enabled_logic_count (channels ex_dev_analog) = 0"
    by (simp add: ex_dev_analog_def enabled_logic_count_def analog_ch_def)
  ultimately have "outc'\<lparr>dir_created := True\<rparr> = ex_ready_analog"
    using dir_create_SR_OK_bounded [OF _ ok]
    by (auto simp: counts_ex_dev_analog ex_ready_analog_def ex_context_def
        analog_number_base_def analog_ch_def)
  moreover have "\<not> dir_created ex_context"
    by (simp add: ex_context_def)
  ultimately show ?thesis
    by (simp add: ensure_dir_def ok)
qed

lemma logic_queue_loop_0 [simp]: "logic_queue_loop outc w rdptr 0 = Some (SR_OK, outc, w)"
  by (subst logic_queue_loop.simps) simp

lemma analog_queue_loop_0 [simp]: "analog_queue_loop outc w idx nr rdptr 0 = Some (SR_OK, outc, w)"
  by (subst analog_queue_loop.simps) simp

lemma ex_one_byte_reached:
  "dir_append_queue ex_ready ex_world [7] 1 1 False = Some (SR_OK, ex_one_byte, ex_world)"
  apply (simp add: dir_append_queue_def ex_ready_def fresh_logic_buffer_def CHUNK_SIZE_def)
  apply (subst logic_queue_loop.simps)
  apply (simp add: logic_copy_def size_sub_def Let_def ex_one_byte_def ex_ready_def fresh_logic_buffer_def CHUNK_SIZE_def)
  done

text \<open>
  C3 (as amended): a call of \<^verbatim>\<open>dir_append_queue\<close> with a non-zero length whose unit size
  differs from the buffer's fails with \<^verbatim>\<open>SR_ERR_ARG\<close>; the context (buffer contents, fill
  and chunk number) is unchanged, no file system call is made, and the only effect is
  the warning in the log.
\<close>

theorem dir_append_queue_unit_size_mismatch:
  assumes "len \<noteq> 0" and "unitsize \<noteq> lb_unit_size (logic_buff outc)"
  shows "\<exists>w'. dir_append_queue outc w buf unitsize len flush = Some (SR_ERR_ARG, outc, w') \<and>
           trace w' = trace w \<and> script w' = script w \<and>
           logged w' = logged w @ [(LOG_WARN, ''Unexpected unit size, discarding logic data.'')]"
  using assms by (simp add: dir_append_queue_def sr_log_def)

theorem dir_append_queue_unit_size_mismatch_witness:
  "dir_append_queue ex_one_byte ex_world [1, 2] 2 2 True =
     Some (SR_ERR_ARG, ex_one_byte,
           ex_world\<lparr>logged := [(LOG_WARN, ''Unexpected unit size, discarding logic data.'')]\<rparr>)"
proof -
  have "(2::nat) \<noteq> 0" "2 \<noteq> lb_unit_size (logic_buff ex_one_byte)"
    by (simp_all add: ex_one_byte_def fresh_logic_buffer_def)
  from dir_append_queue_unit_size_mismatch [OF this, of ex_world "[1, 2]" True]
  show ?thesis
    by (auto simp: ex_world_def)
qed

theorem dir_append_queue_zero_length_mismatch:
  "0 \<noteq> lb_unit_size (logic_buff ex_one_byte) \<and>
   lb_fill_size (logic_buff ex_one_byte) = 1 \<and>
   lb_next_chunk_num (logic_buff ex_one_byte) = 1 \<and>
   (case dir_append_queue ex_one_byte ex_world [] 0 0 True of
      None \<Rightarrow> False
    | Some (ret, outc', w') \<Rightarrow>
        ret = SR_OK \<and> lb_fill_size (logic_buff outc') = 0 \<and>
        lb_next_chunk_num (logic_buff outc') = 2 \<and>
        trace w' = [Ev_fopen (File_logic 1) True, Ev_fwrite (File_logic 1) (Bytes [7]) True])"
  by (simp add: dir_append_queue_def dir_append_def ex_one_byte_def ex_ready_def
      fresh_logic_buffer_def ex_world_def g_fopen_def fwrite1_def next_outcome_def emit_def
      memcpy_def Let_def)

lemma find_analog_idx_step:
  "idx < count \<Longrightarrow> amap ! idx \<noteq> chidx \<Longrightarrow>
     find_analog_idx idx count amap chidx = find_analog_idx (idx + 1) count amap chidx"
  by (subst find_analog_idx.simps) simp

lemma find_analog_idx_stop:
  "\<not> (idx < count \<and> amap ! idx \<noteq> chidx) \<Longrightarrow> find_analog_idx idx count amap chidx = idx"
  by (subst find_analog_idx.simps) simp

lemma find_analog_idx_bounds:
  "i \<le> n \<Longrightarrow> i \<le> find_analog_idx i n amap x \<and> find_analog_idx i n amap x \<le> n"
proof (induction i n amap x rule: find_analog_idx.induct)
  case (1 idx count amap chidx)
  show ?case
  proof (cases "idx < count \<and> amap ! idx \<noteq> chidx")
    case True
    with "1.IH" have "idx + 1 \<le> find_analog_idx (idx + 1) count amap chidx \<and>
        find_analog_idx (idx + 1) count amap chidx \<le> count"
      by simp
    with True show ?thesis
      by (simp add: find_analog_idx_step)
  next
    case False
    with "1.prems" show ?thesis
      by (simp add: find_analog_idx_stop)
  qed
qed

lemma find_analog_idx_found:
  "find_analog_idx i n amap x < n \<Longrightarrow> amap ! find_analog_idx i n amap x = x"
proof (induction i n amap x rule: find_analog_idx.induct)
  case (1 idx count amap chidx)
  show ?case
  proof (cases "idx < count \<and> amap ! idx \<noteq> chidx")
    case True
    with "1.IH" "1.prems" show ?thesis
      by (simp add: find_analog_idx_step)
  next
    case False
    with "1.prems" show ?thesis
      by (simp add: find_analog_idx_stop)
  qed
qed

lemma find_analog_idx_absent:
  "i \<le> n \<Longrightarrow> (find_analog_idx i n amap x = n) = (\<forall>j. i \<le> j \<and> j < n \<longrightarrow> amap ! j \<noteq> x)"
proof (induction i n amap x rule: find_analog_idx.induct)
  case (1 idx count amap chidx)
  show ?case
  proof (cases "idx < count \<and> amap ! idx \<noteq> chidx")
    case True
    with "1.IH" have "(find_analog_idx (idx + 1) count amap chidx = count) =
          (\<forall>j. idx + 1 \<le> j \<and> j < count \<longrightarrow> amap ! j \<noteq> chidx)"
      by simp
    moreover have "(\<forall>j. idx + 1 \<le> j \<and> j < count \<longrightarrow> amap ! j \<noteq> chidx) =
          (\<forall>j. idx \<le> j \<and> j < count \<longrightarrow> amap ! j \<noteq> chidx)"
    proof (intro iffI allI impI)
      fix j
      assume a: "\<forall>j. idx + 1 \<le> j \<and> j < count \<longrightarrow> amap ! j \<noteq> chidx" and j: "idx \<le> j \<and> j < count"
      show "amap ! j \<noteq> chidx"
      proof (cases "j = idx")
        case True
        with \<open>idx < count \<and> amap ! idx \<noteq> chidx\<close> show ?thesis by simp
      next
        case False
        with j have "idx + 1 \<le> j \<and> j < count" by simp
        with a show ?thesis by blast
      qed
    next
      fix j
      assume a: "\<forall>j. idx \<le> j \<and> j < count \<longrightarrow> amap ! j \<noteq> chidx" and j: "idx + 1 \<le> j \<and> j < count"
      then have "idx \<le> j \<and> j < count" by simp
      with a show "amap ! j \<noteq> chidx" by blast
    qed
    ultimately show ?thesis
      using True by (simp add: find_analog_idx_step)
  next
    case False
    show ?thesis
    proof (cases "idx < count")
      case True
      with False have "amap ! idx = chidx" by simp
      with True False show ?thesis
        by (auto simp: find_analog_idx_stop)
    next
      case False
      with "1.prems" show ?thesis
        by (simp add: find_analog_idx_stop)
    qed
  qed
qed

lemma find_analog_idx_not_in_map:
  assumes "length amap = n"
  shows "(find_analog_idx 0 n amap x = n) = (x \<notin> set amap)"
  using find_analog_idx_absent [of 0 n amap x] assms
  by (auto simp: in_set_conv_nth)

text \<open>
  C8: a call of \<^verbatim>\<open>dir_append_analog_queue\<close> with a packet whose channel list does not
  have exactly one element fails with \<^verbatim>\<open>SR_ERR\<close> and the log line "Analog packets
  covering multiple channels not supported yet"; a packet whose single channel index is
  not in the index map fails with \<^verbatim>\<open>SR_ERR_ARG\<close>. In both cases the context and the
  world's trace and script are as before.
\<close>

theorem dir_append_analog_queue_rejects:
  "(length (an_channels an) \<noteq> 1 \<longrightarrow>
      dir_append_analog_queue outc w (Some an) flush =
        Some (SR_ERR, outc,
              w\<lparr>logged := logged w @
                 [(LOG_ERR, ''Analog packets covering multiple channels not supported yet'')]\<rparr>)) \<and>
   (length (an_channels an) = 1 \<and>
    length (analog_index_map outc) = analog_ch_count outc \<and>
    ch_index (an_channels an ! 0) \<notin> set (analog_index_map outc) \<longrightarrow>
      dir_append_analog_queue outc w (Some an) flush = Some (SR_ERR_ARG, outc, w))"
  by (simp add: dir_append_analog_queue_def sr_log_def Let_def find_analog_idx_not_in_map)

theorem dir_append_analog_queue_rejects_witness:
  "dir_append_analog_queue ex_ready ex_world
     (Some (ex_analog_packet [analog_ch 3, analog_ch 5])) False =
     Some (SR_ERR, ex_ready,
           ex_world\<lparr>logged :=
              [(LOG_ERR, ''Analog packets covering multiple channels not supported yet'')]\<rparr>) \<and>
   dir_append_analog_queue ex_ready ex_world (Some (ex_analog_packet [analog_ch 4])) False =
     Some (SR_ERR_ARG, ex_ready, ex_world)"
proof -
  have multi: "length (an_channels (ex_analog_packet [analog_ch 3, analog_ch 5])) \<noteq> 1"
    by (simp add: ex_analog_packet_def)
  have absent: "length (an_channels (ex_analog_packet [analog_ch 4])) = 1 \<and>
      length (analog_index_map ex_ready) = analog_ch_count ex_ready \<and>
      ch_index (an_channels (ex_analog_packet [analog_ch 4]) ! 0) \<notin> set (analog_index_map ex_ready)"
    by (simp add: ex_analog_packet_def ex_ready_def analog_ch_def)
  have w: "ex_world\<lparr>logged := logged ex_world @
                 [(LOG_ERR, ''Analog packets covering multiple channels not supported yet'')]\<rparr> =
           ex_world\<lparr>logged :=
              [(LOG_ERR, ''Analog packets covering multiple channels not supported yet'')]\<rparr>"
    by (simp add: ex_world_def)
  from dir_append_analog_queue_rejects
         [where outc = ex_ready and w = ex_world and flush = False, THEN conjunct1, THEN mp, OF multi]
       dir_append_analog_queue_rejects
         [where outc = ex_ready and w = ex_world and flush = False, THEN conjunct2, THEN mp, OF absent]
  show ?thesis
    unfolding w by (rule conjI)
qed

text \<open>
  C10: when a non-terminal call of \<^verbatim>\<open>dir_append_analog_queue\<close> meets one of the four
  failures that precede the copy loop (not exactly one channel, channel index in none of
  the \<open>analog_ch_count\<close> slots of the index map, failed allocation of the conversion
  array, failed conversion), it returns an error code, the context is unchanged (every
  buffer's fill, chunk number and contents) and no file system call has been made.
\<close>

theorem dir_append_analog_queue_early_failure:
  assumes "length (an_channels an) \<noteq> 1 \<or>
           (\<forall>j<analog_ch_count outc. analog_index_map outc ! j \<noteq> ch_index (an_channels an ! 0)) \<or>
           \<not> fst (g_try_malloc0 (an_num_samples an * sizeof_float) w) \<or>
           an_to_float_ret an \<noteq> SR_OK"
  shows "\<exists>ret w'. dir_append_analog_queue outc w (Some an) flush = Some (ret, outc, w') \<and>
           ret \<noteq> SR_OK \<and> trace w' = trace w"
proof -
  let ?idx = "find_analog_idx 0 (analog_ch_count outc) (analog_index_map outc)
                (ch_index (an_channels an ! 0))"
  obtain ok w0 where m: "g_try_malloc0 (an_num_samples an * sizeof_float) w = (ok, w0)"
    by (cases "g_try_malloc0 (an_num_samples an * sizeof_float) w")
  from g_try_malloc0_D [OF m] have w0: "trace w0 = trace w" by simp
  consider (multi) "length (an_channels an) \<noteq> 1"
    | (absent) "length (an_channels an) = 1" "?idx = analog_ch_count outc"
    | (malloc) "length (an_channels an) = 1" "?idx \<noteq> analog_ch_count outc" "\<not> ok"
    | (conv) "length (an_channels an) = 1" "?idx \<noteq> analog_ch_count outc" "ok"
        "an_to_float_ret an \<noteq> SR_OK"
    using assms m find_analog_idx_absent [of 0 "analog_ch_count outc" "analog_index_map outc"
        "ch_index (an_channels an ! 0)"]
    by auto
  then show ?thesis
  proof cases
    case multi
    then show ?thesis
      by (simp add: dir_append_analog_queue_def sr_log_def)
  next
    case absent
    then show ?thesis
      by (simp add: dir_append_analog_queue_def Let_def)
  next
    case malloc
    with m w0 show ?thesis
      by (simp add: dir_append_analog_queue_def Let_def)
  next
    case conv
    with m w0 show ?thesis
      by (simp add: dir_append_analog_queue_def Let_def)
  qed
qed

theorem dir_append_analog_queue_early_failure_witness:
  "(\<exists>ret w'. dir_append_analog_queue ex_ready ex_world
       (Some ((ex_analog_packet [analog_ch 3])\<lparr>an_to_float_ret := SR_ERR\<rparr>)) False =
       Some (ret, ex_ready, w') \<and> ret \<noteq> SR_OK \<and> trace w' = trace ex_world) \<and>
   (\<exists>ret w'. dir_append_analog_queue ex_ready (ex_world\<lparr>script := [False]\<rparr>)
       (Some (ex_analog_packet [analog_ch 3])) False =
       Some (ret, ex_ready, w') \<and> ret \<noteq> SR_OK \<and> trace w' = trace (ex_world\<lparr>script := [False]\<rparr>))"
proof -
  have conv: "an_to_float_ret ((ex_analog_packet [analog_ch 3])\<lparr>an_to_float_ret := SR_ERR\<rparr>) \<noteq> SR_OK"
    by simp
  have malloc: "\<not> fst (g_try_malloc0 (an_num_samples (ex_analog_packet [analog_ch 3]) * sizeof_float)
                        (ex_world\<lparr>script := [False]\<rparr>))"
    by (simp add: ex_analog_packet_def g_try_malloc0_def next_outcome_def sizeof_float_def)
  from dir_append_analog_queue_early_failure
         [where outc = ex_ready and w = ex_world and flush = False,
          OF disjI2 [OF disjI2 [OF disjI2 [OF conv]]]]
       dir_append_analog_queue_early_failure
         [where outc = ex_ready and flush = False,
          OF disjI2 [OF disjI2 [OF disjI1 [OF malloc]]]]
  show ?thesis
    by (rule conjI)
qed

lemma dir_append_chunk_num:
  assumes "dir_append outc w buf unitsize len = (ret, outc', w')"
  shows "outc' = (if ret = SR_OK \<and> len \<noteq> 0
                  then outc\<lparr>logic_buff := (logic_buff outc)
                          \<lparr>lb_next_chunk_num := lb_next_chunk_num (logic_buff outc) + 1\<rparr>\<rparr>
                  else outc)"
  using assms
  by (auto simp: dir_append_def Let_def split: if_splits prod.splits bool.splits)

lemma dir_append_analog_chunk_num:
  assumes "dir_append_analog outc w vals count ch_nr = (ret, outc', w')"
  shows "outc' = outc\<lparr>analog_buff := (analog_buff outc)
           [size_sub ch_nr (first_analog_index outc) :=
              (analog_buff outc ! size_sub ch_nr (first_analog_index outc))
                \<lparr>ab_next_chunk_num :=
                   ab_next_chunk_num (analog_buff outc ! size_sub ch_nr (first_analog_index outc)) + 1\<rparr>]\<rparr>"
  using assms
  by (auto simp: dir_append_analog_def Let_def split: prod.splits)

text \<open>
  C4, at a failing write: the end-of-stream flush of an analog buffer that holds two
  samples, with a \<^verbatim>\<open>g_fopen\<close> that fails. The call returns \<^verbatim>\<open>SR_ERR\<close>, nothing is
  written, the buffer keeps its two samples, and yet its chunk number has gone from 1
  to 2: \<^verbatim>\<open>dir_append_analog\<close> increments on every path, where \<^verbatim>\<open>dir_append\<close> returns
  before the increment.
\<close>

theorem dir_append_analog_failed_write_increments:
  "ab_next_chunk_num (analog_buff ex_two_floats ! 0) = 1 \<and>
   (case dir_append_analog_queue ex_two_floats (ex_world\<lparr>script := [False]\<rparr>) None True of
      None \<Rightarrow> False
    | Some (ret, outc', w') \<Rightarrow>
        ret = SR_ERR \<and>
        ab_next_chunk_num (analog_buff outc' ! 0) = 2 \<and>
        ab_fill_size (analog_buff outc' ! 0) = 2 \<and>
        trace w' = [Ev_fopen (File_analog 4 1) False])"
  apply (simp add: dir_append_analog_queue_def)
  apply (subst analog_flush_all.simps)
  apply (simp add: ex_two_floats_def ex_ready_def fresh_analog_buffer_def dir_append_analog_def
      size_sub_def g_fopen_def next_outcome_def emit_def ex_world_def sr_log_def Let_def)
  done

lemma logic_writes_append: "logic_writes (xs @ ys) = logic_writes xs @ logic_writes ys"
  by (induction xs rule: logic_writes.induct) simp_all

lemma numbered_from_append:
  "numbered_from n (xs @ ys) =
     (numbered_from n xs \<and> numbered_from (n + of_nat (length xs)) ys)"
proof (induction xs arbitrary: n)
  case Nil
  then show ?case by simp
next
  case (Cons x xs)
  then show ?case
    by (cases x) (simp add: ac_simps)
qed

lemma g_fopen_io_ok:
  assumes "io_ok w"
  shows "\<exists>w'. g_fopen f w = (True, w') \<and> io_ok w' \<and>
           trace w' = trace w @ [Ev_fopen f True] \<and> logged w' = logged w"
proof -
  from g_fopen_ok [OF assms] obtain w' where "g_fopen f w = (True, w')" "io_ok w'"
    by blast
  with g_fopen_D [of f w True w'] show ?thesis by simp
qed

lemma fwrite1_io_ok:
  assumes "io_ok w" "0 < content_size c"
  shows "\<exists>w'. fwrite1 f c w = (True, w') \<and> io_ok w' \<and>
           trace w' = trace w @ [Ev_fwrite f c True] \<and> logged w' = logged w"
proof -
  from fwrite1_ok [OF assms] obtain w' where "fwrite1 f c w = (True, w')" "io_ok w'"
    by blast
  with fwrite1_D [of f c w True w'] show ?thesis by simp
qed

lemma dir_append_io_ok:
  assumes "io_ok w" "0 < len" "len mod unitsize = 0"
  shows "\<exists>w'. dir_append outc w buf unitsize len =
             (SR_OK,
              outc\<lparr>logic_buff := (logic_buff outc)
                 \<lparr>lb_next_chunk_num := lb_next_chunk_num (logic_buff outc) + 1\<rparr>\<rparr>, w') \<and>
           io_ok w' \<and> logged w' = logged w \<and>
           trace w' = trace w @
             [Ev_fopen (File_logic (lb_next_chunk_num (logic_buff outc))) True,
              Ev_fwrite (File_logic (lb_next_chunk_num (logic_buff outc)))
                (Bytes (map buf [0..<len])) True]"
proof -
  let ?f = "File_logic (lb_next_chunk_num (logic_buff outc))"
  from g_fopen_io_ok [OF assms(1), of ?f] obtain w1 where
    1: "g_fopen ?f w = (True, w1)" "io_ok w1" "trace w1 = trace w @ [Ev_fopen ?f True]"
      "logged w1 = logged w"
    by blast
  from fwrite1_io_ok [OF 1(2), of "Bytes (map buf [0..<len])" ?f] assms(2) obtain w2 where
    2: "fwrite1 ?f (Bytes (map buf [0..<len])) w1 = (True, w2)" "io_ok w2"
      "trace w2 = trace w1 @ [Ev_fwrite ?f (Bytes (map buf [0..<len])) True]"
      "logged w2 = logged w1"
    by auto
  from assms 1 2 show ?thesis
    by (simp add: dir_append_def)
qed

lemma map_memcpy:
  assumes "n \<le> length src"
  shows "map (memcpy dst off src n) [0..<off + n] = map dst [0..<off] @ take n src"
proof -
  have "[0..<off + n] = [0..<off] @ [off..<off + n]"
    by (rule upt_add_eq_append) simp
  moreover have "map (memcpy dst off src n) [0..<off] = map dst [0..<off]"
    by (simp add: memcpy_def)
  moreover have "map (memcpy dst off src n) [off..<off + n] = take n src"
    using assms by (intro nth_equalityI) (simp_all add: memcpy_def)
  ultimately show ?thesis by simp
qed

lemma logic_copy_room:
  assumes "lb_fill_size (logic_buff outc) < lb_alloc_size (logic_buff outc)"
  shows "logic_copy outc rdptr n =
     (let b = logic_buff outc;
          k = min n (lb_alloc_size b - lb_fill_size b)
      in (outc\<lparr>logic_buff := b\<lparr>lb_fill_size := lb_fill_size b + k,
                  lb_samples := memcpy (lb_samples b) (lb_fill_size b * lb_unit_size b) rdptr
                                  (k * lb_unit_size b)\<rparr>\<rparr>,
          drop (k * lb_unit_size b) rdptr, n - k, lb_alloc_size b - lb_fill_size b - k))"
  using assms by (simp add: logic_copy_def size_sub_def Let_def)

lemma logic_copy_full:
  assumes "lb_fill_size (logic_buff outc) = lb_alloc_size (logic_buff outc)"
  shows "logic_copy outc rdptr n = (outc, rdptr, n, 0)"
  using assms by (simp add: logic_copy_def size_sub_def Let_def)

lemma logic_grows_refl: "logic_grows outc w outc w []"
  by (simp add: logic_grows_def)

lemma logic_grows_trans:
  assumes "logic_grows a wa b wb xs" and "logic_grows b wb c wc ys"
  shows "logic_grows a wa c wc (xs @ ys)"
  using assms by (simp add: logic_grows_def numbered_from_append)

lemma logic_flush_io_ok:
  assumes "logic_ok outc" "io_ok w" "0 < lb_fill_size (logic_buff outc)"
  shows "\<exists>w'. dir_append outc w (lb_samples (logic_buff outc)) (lb_unit_size (logic_buff outc))
               (lb_fill_size (logic_buff outc) * lb_unit_size (logic_buff outc)) =
             (SR_OK,
              outc\<lparr>logic_buff := (logic_buff outc)
                 \<lparr>lb_next_chunk_num := lb_next_chunk_num (logic_buff outc) + 1\<rparr>\<rparr>, w') \<and>
           io_ok w' \<and>
           logic_writes (trace w') =
             logic_writes (trace w) @ [(lb_next_chunk_num (logic_buff outc), logic_buffered outc)]"
proof -
  from assms have "0 < lb_fill_size (logic_buff outc) * lb_unit_size (logic_buff outc)"
    by (simp add: logic_ok_def)
  from dir_append_io_ok [OF assms(2) this, of "lb_unit_size (logic_buff outc)" outc
      "lb_samples (logic_buff outc)"]
  show ?thesis
    by (auto simp: logic_writes_append logic_buffered_def)
qed

lemma logic_queue_loop_io_ok:
  assumes "logic_ok outc" "io_ok w" "n * lb_unit_size (logic_buff outc) \<le> length rd"
  shows "\<exists>outc' w' new.
           logic_queue_loop outc w rd n = Some (SR_OK, outc', w') \<and>
           logic_ok outc' \<and> io_ok w' \<and> logic_grows outc w outc' w' new \<and>
           (\<forall>c \<in> set new. length (snd c) =
              lb_alloc_size (logic_buff outc) * lb_unit_size (logic_buff outc)) \<and>
           concat (map snd new) @ logic_buffered outc' =
             logic_buffered outc @ take (n * lb_unit_size (logic_buff outc)) rd"
  using assms
proof (induction "2 * n + (if lb_fill_size (logic_buff outc) = lb_alloc_size (logic_buff outc)
                            then 1 else 0)"
       arbitrary: outc w rd n rule: less_induct)
  case less
  let ?b = "logic_buff outc"
  let ?u = "lb_unit_size ?b" and ?alloc = "lb_alloc_size ?b" and ?fill = "lb_fill_size ?b"
  from less.prems have u: "0 < ?u" and alloc: "0 < ?alloc" and fill: "?fill \<le> ?alloc"
    and cap: "?alloc * ?u \<le> CHUNK_SIZE"
    by (simp_all add: logic_ok_def)
  show ?case
  proof (cases "n = 0")
    case True
    with less.prems show ?thesis
      by (auto simp: logic_grows_refl intro!: exI [of _ "[]"])
  next
    case n: False
    show ?thesis
    proof (cases "?fill = ?alloc")
      case full: True
      \<comment> \<open>no room: the full buffer is written, then the loop goes on with an empty one\<close>
      from logic_flush_io_ok [OF less.prems(1,2)] alloc full obtain w2 where
        app: "dir_append outc w (lb_samples ?b) ?u (?fill * ?u) =
                (SR_OK, outc\<lparr>logic_buff := ?b\<lparr>lb_next_chunk_num := lb_next_chunk_num ?b + 1\<rparr>\<rparr>, w2)"
        and w2: "io_ok w2"
          "logic_writes (trace w2) =
             logic_writes (trace w) @ [(lb_next_chunk_num ?b, logic_buffered outc)]"
        by auto
      define outc2 where
        "outc2 = outc\<lparr>logic_buff := ?b\<lparr>lb_next_chunk_num := lb_next_chunk_num ?b + 1,
                                            lb_fill_size := 0\<rparr>\<rparr>"
      have step: "logic_queue_loop outc w rd n = logic_queue_loop outc2 w2 rd n"
        using n full app
        by (subst logic_queue_loop.simps) (simp add: logic_copy_full outc2_def)
      have ok2: "logic_ok outc2"
        using u alloc cap by (simp add: logic_ok_def outc2_def)
      have g1: "logic_grows outc w outc2 w2 [(lb_next_chunk_num ?b, logic_buffered outc)]"
        using w2 by (simp add: logic_grows_def outc2_def)
      have u2: "lb_unit_size (logic_buff outc2) = ?u" "lb_alloc_size (logic_buff outc2) = ?alloc"
        by (simp_all add: outc2_def)
      have m: "2 * n + (if lb_fill_size (logic_buff outc2) = lb_alloc_size (logic_buff outc2)
                     then 1 else 0)
            < 2 * n + (if ?fill = ?alloc then 1 else 0)"
        using alloc full by (simp add: outc2_def)
      have "n * lb_unit_size (logic_buff outc2) \<le> length rd"
        using less.prems(3) by (simp add: u2)
      from less.hyps [OF m ok2 w2(1) this]
      obtain outc' w' new where
        rec: "logic_queue_loop outc2 w2 rd n = Some (SR_OK, outc', w')"
          "logic_ok outc'" "io_ok w'" "logic_grows outc2 w2 outc' w' new"
          "\<forall>c \<in> set new. length (snd c) = ?alloc * ?u"
          "concat (map snd new) @ logic_buffered outc' =
             logic_buffered outc2 @ take (n * ?u) rd"
        by (auto simp: u2)
      have len1: "length (logic_buffered outc) = ?alloc * ?u"
        using full by (simp add: logic_buffered_def)
      have b2: "logic_buffered outc2 = []"
        by (simp add: logic_buffered_def outc2_def)
      let ?new = "(lb_next_chunk_num ?b, logic_buffered outc) # new"
      have "logic_grows outc w outc' w' ?new"
        using logic_grows_trans [OF g1 rec(4)] by simp
      moreover have "\<forall>c \<in> set ?new. length (snd c) = ?alloc * ?u"
        using rec(5) len1 by simp
      moreover have "concat (map snd ?new) @ logic_buffered outc' =
          logic_buffered outc @ take (n * ?u) rd"
        using rec(6) b2 by simp
      ultimately have "logic_queue_loop outc w rd n = Some (SR_OK, outc', w') \<and>
           logic_ok outc' \<and> io_ok w' \<and> logic_grows outc w outc' w' ?new \<and>
           (\<forall>c \<in> set ?new. length (snd c) = ?alloc * ?u) \<and>
           concat (map snd ?new) @ logic_buffered outc' = logic_buffered outc @ take (n * ?u) rd"
        using step rec(1,2,3) by (simp only: simp_thms)
      then show ?thesis
        by (intro exI)
    next
      case room: False
      with fill have lt: "?fill < ?alloc" by simp
      define k where "k = min n (?alloc - ?fill)"
      from n lt have k: "0 < k" "k \<le> n" "?fill + k \<le> ?alloc"
        by (simp_all add: k_def)
      define outc1 where
        "outc1 = outc\<lparr>logic_buff := ?b\<lparr>lb_fill_size := ?fill + k,
                    lb_samples := memcpy (lb_samples ?b) (?fill * ?u) rd (k * ?u)\<rparr>\<rparr>"
      have copy: "logic_copy outc rd n = (outc1, drop (k * ?u) rd, n - k, ?alloc - ?fill - k)"
        using logic_copy_room [OF lt, of rd n] by (simp add: Let_def k_def outc1_def)
      from k(2) less.prems(3) have ku: "k * ?u \<le> length rd"
        by (meson le_trans mult_le_mono1)
      have b1: "logic_buffered outc1 = logic_buffered outc @ take (k * ?u) rd"
        using map_memcpy [OF ku, of "lb_samples ?b" "?fill * ?u"]
        by (simp add: logic_buffered_def outc1_def add_mult_distrib)
      have ok1: "logic_ok outc1"
        using u alloc k cap by (simp add: logic_ok_def outc1_def)
      have g0: "logic_grows outc w outc1 w []"
        by (simp add: logic_grows_def outc1_def)
      show ?thesis
      proof (cases "n - k \<noteq> 0 \<and> ?alloc - ?fill - k = 0")
        case False
        with k have nk: "n = k"
          by (auto simp: k_def min_def split: if_splits)
        have "logic_queue_loop outc w rd n = Some (SR_OK, outc1, w)"
          using n nk copy by (subst logic_queue_loop.simps) simp
        moreover have "concat (map snd []) @ logic_buffered outc1 =
            logic_buffered outc @ take (n * ?u) rd"
          using b1 nk by simp
        ultimately show ?thesis
          using ok1 less.prems(2) g0 by (intro exI [of _ outc1] exI [of _ w] exI [of _ "[]"]) simp
      next
        case True
        then have rest: "0 < n - k" and full1: "?fill + k = ?alloc"
          using k by simp_all
        have fill1: "0 < lb_fill_size (logic_buff outc1)"
          using k by (simp add: outc1_def)
        let ?b1 = "logic_buff outc1"
        from logic_flush_io_ok [OF ok1 less.prems(2) fill1] obtain w2 where
          app: "dir_append outc1 w (lb_samples ?b1) (lb_unit_size ?b1)
                  (lb_fill_size ?b1 * lb_unit_size ?b1) =
                (SR_OK, outc1\<lparr>logic_buff := ?b1\<lparr>lb_next_chunk_num := lb_next_chunk_num ?b1 + 1\<rparr>\<rparr>, w2)"
          and w2: "io_ok w2"
            "logic_writes (trace w2) =
               logic_writes (trace w) @ [(lb_next_chunk_num ?b1, logic_buffered outc1)]"
          by auto
        define outc2 where
          "outc2 = outc1\<lparr>logic_buff := ?b1\<lparr>lb_next_chunk_num := lb_next_chunk_num ?b1 + 1,
                                               lb_fill_size := 0\<rparr>\<rparr>"
        have step: "logic_queue_loop outc w rd n =
            logic_queue_loop outc2 w2 (drop (k * ?u) rd) (n - k)"
          using n True copy app
          by (subst logic_queue_loop.simps) (simp add: outc2_def)
        have ok2: "logic_ok outc2"
          using u alloc cap by (simp add: logic_ok_def outc2_def outc1_def)
        have g1: "logic_grows outc w outc2 w2 [(lb_next_chunk_num ?b, logic_buffered outc1)]"
          using w2 by (simp add: logic_grows_def outc2_def outc1_def)
        have u2: "lb_unit_size (logic_buff outc2) = ?u" "lb_alloc_size (logic_buff outc2) = ?alloc"
          by (simp_all add: outc2_def outc1_def)
        have m: "2 * (n - k) + (if lb_fill_size (logic_buff outc2) = lb_alloc_size (logic_buff outc2)
                       then 1 else 0)
              < 2 * n + (if ?fill = ?alloc then 1 else 0)"
          using k alloc by (simp add: outc2_def outc1_def)
        have "(n - k) * lb_unit_size (logic_buff outc2) \<le> length (drop (k * ?u) rd)"
          using less.prems(3) k(2) by (simp add: u2 diff_mult_distrib)
        from less.hyps [OF m ok2 w2(1) this]
        obtain outc' w' new where
          rec: "logic_queue_loop outc2 w2 (drop (k * ?u) rd) (n - k) = Some (SR_OK, outc', w')"
            "logic_ok outc'" "io_ok w'" "logic_grows outc2 w2 outc' w' new"
            "\<forall>c \<in> set new. length (snd c) = ?alloc * ?u"
            "concat (map snd new) @ logic_buffered outc' =
               logic_buffered outc2 @ take ((n - k) * ?u) (drop (k * ?u) rd)"
          by (auto simp: u2)
        have len1: "length (logic_buffered outc1) = ?alloc * ?u"
          using full1 by (simp add: logic_buffered_def outc1_def)
        have b2: "logic_buffered outc2 = []"
          by (simp add: logic_buffered_def outc2_def)
        have tk: "take (k * ?u) rd @ take ((n - k) * ?u) (drop (k * ?u) rd) = take (n * ?u) rd"
          using k(2) by (simp add: take_add [symmetric] diff_mult_distrib mult_le_mono1)
        let ?new = "(lb_next_chunk_num ?b, logic_buffered outc1) # new"
        have "logic_grows outc w outc' w' ?new"
          using logic_grows_trans [OF g1 rec(4)] by simp
        moreover have "\<forall>c \<in> set ?new. length (snd c) = ?alloc * ?u"
          using rec(5) len1 by simp
        moreover have "concat (map snd ?new) @ logic_buffered outc' =
            logic_buffered outc @ take (n * ?u) rd"
          using rec(6) b1 b2 tk by simp
        ultimately have "logic_queue_loop outc w rd n = Some (SR_OK, outc', w') \<and>
             logic_ok outc' \<and> io_ok w' \<and> logic_grows outc w outc' w' ?new \<and>
             (\<forall>c \<in> set ?new. length (snd c) = ?alloc * ?u) \<and>
             concat (map snd ?new) @ logic_buffered outc' = logic_buffered outc @ take (n * ?u) rd"
          using step rec(1,2,3) by (simp only: simp_thms)
        then show ?thesis
          by (intro exI)
      qed
    qed
  qed
qed

lemma dir_append_queue_noflush_io_ok:
  assumes "logic_ok outc" "io_ok w" "unitsize = lb_unit_size (logic_buff outc)"
    and "len \<le> length buf"
  shows "\<exists>outc' w' new.
           dir_append_queue outc w buf unitsize len False = Some (SR_OK, outc', w') \<and>
           logic_ok outc' \<and> io_ok w' \<and> logic_grows outc w outc' w' new \<and>
           (\<forall>c \<in> set new. length (snd c) =
              lb_alloc_size (logic_buff outc) * lb_unit_size (logic_buff outc)) \<and>
           concat (map snd new) @ logic_buffered outc' =
             logic_buffered outc @ take (len div unitsize * unitsize) buf"
proof -
  let ?u = "lb_unit_size (logic_buff outc)"
  from assms(1) have u: "0 < ?u" by (simp add: logic_ok_def)
  have "len div ?u * ?u \<le> len" by simp
  then have "len div ?u * ?u \<le> length buf" using assms(4) by (rule le_trans)
  from logic_queue_loop_io_ok [OF assms(1,2) this]
  obtain outc' w' new where
    loop: "logic_queue_loop outc w buf (len div ?u) = Some (SR_OK, outc', w')"
    and 1: "logic_ok outc' \<and> io_ok w' \<and> logic_grows outc w outc' w' new \<and>
           (\<forall>c \<in> set new. length (snd c) = lb_alloc_size (logic_buff outc) * ?u) \<and>
           concat (map snd new) @ logic_buffered outc' =
             logic_buffered outc @ take (len div ?u * ?u) buf"
    by blast
  have "dir_append_queue outc w buf unitsize len False = Some (SR_OK, outc', w')"
    using loop u assms(3) by (simp add: dir_append_queue_def)
  with 1 have "dir_append_queue outc w buf unitsize len False = Some (SR_OK, outc', w') \<and>
           logic_ok outc' \<and> io_ok w' \<and> logic_grows outc w outc' w' new \<and>
           (\<forall>c \<in> set new. length (snd c) =
              lb_alloc_size (logic_buff outc) * lb_unit_size (logic_buff outc)) \<and>
           concat (map snd new) @ logic_buffered outc' =
             logic_buffered outc @ take (len div unitsize * unitsize) buf"
    using assms(3) by auto
  then show ?thesis
    by (intro exI)
qed




lemma dir_append_analog_io_ok:
  assumes "io_ok w" "0 < count"
  shows "\<exists>w'. dir_append_analog outc w vals count ch_nr =
             (SR_OK,
              outc\<lparr>analog_buff := (analog_buff outc)
                 [size_sub ch_nr (first_analog_index outc) :=
                    (analog_buff outc ! size_sub ch_nr (first_analog_index outc))
                      \<lparr>ab_next_chunk_num :=
                         ab_next_chunk_num
                           (analog_buff outc ! size_sub ch_nr (first_analog_index outc)) + 1\<rparr>]\<rparr>,
              w') \<and>
           io_ok w' \<and> logged w' = logged w \<and>
           trace w' = trace w @
             [Ev_fopen (File_analog ch_nr
                 (ab_next_chunk_num (analog_buff outc ! size_sub ch_nr (first_analog_index outc))))
                True,
              Ev_fwrite (File_analog ch_nr
                 (ab_next_chunk_num (analog_buff outc ! size_sub ch_nr (first_analog_index outc))))
                (Floats (map vals [0..<count])) True]"
proof -
  let ?f = "File_analog ch_nr
              (ab_next_chunk_num (analog_buff outc ! size_sub ch_nr (first_analog_index outc)))"
  from g_fopen_io_ok [OF assms(1), of ?f] obtain w1 where
    1: "g_fopen ?f w = (True, w1)" "io_ok w1" "trace w1 = trace w @ [Ev_fopen ?f True]"
      "logged w1 = logged w"
    by blast
  from fwrite1_io_ok [OF 1(2), of "Floats (map vals [0..<count])" ?f] assms(2) obtain w2 where
    2: "fwrite1 ?f (Floats (map vals [0..<count])) w1 = (True, w2)" "io_ok w2"
      "trace w2 = trace w1 @ [Ev_fwrite ?f (Floats (map vals [0..<count])) True]"
      "logged w2 = logged w1"
    by (auto simp: sizeof_float_def)
  from 1 2 show ?thesis
    by (simp add: dir_append_analog_def Let_def)
qed

lemma analog_flush_all_io_ok:
  assumes "io_ok w"
  shows "\<exists>outc' w'. analog_flush_all idx outc w = (SR_OK, outc', w') \<and> io_ok w' \<and>
           logic_buff outc' = logic_buff outc \<and>
           analog_ch_count outc' = analog_ch_count outc \<and>
           logic_writes (trace w') = logic_writes (trace w)"
  using assms
proof (induction "analog_ch_count outc - idx" arbitrary: idx outc w rule: less_induct)
  case less
  show ?case
  proof (cases "idx < analog_ch_count outc")
    case False
    with less.prems show ?thesis
      by (subst analog_flush_all.simps) simp
  next
    case lt: True
    let ?buff = "analog_buff outc ! idx"
    show ?thesis
    proof (cases "ab_fill_size ?buff = 0")
      case True
      have "analog_flush_all idx outc w = analog_flush_all (idx + 1) outc w"
        using lt True by (subst analog_flush_all.simps) (simp add: Let_def)
      moreover from lt have "analog_ch_count outc - (idx + 1) < analog_ch_count outc - idx"
        by simp
      from less.hyps [OF this less.prems]
      obtain outc' w' where "analog_flush_all (idx + 1) outc w = (SR_OK, outc', w')" "io_ok w'"
        "logic_buff outc' = logic_buff outc" "analog_ch_count outc' = analog_ch_count outc"
        "logic_writes (trace w') = logic_writes (trace w)"
        by blast
      ultimately show ?thesis by simp
    next
      case False
      then have pos: "0 < ab_fill_size ?buff" by simp
      from dir_append_analog_io_ok [OF less.prems pos, of outc "ab_samples ?buff"
          "first_analog_index outc + idx"]
      obtain outc1 w1 where
        app: "dir_append_analog outc w (ab_samples ?buff) (ab_fill_size ?buff)
                (first_analog_index outc + idx) = (SR_OK, outc1, w1)"
        and 1: "io_ok w1" "logic_buff outc1 = logic_buff outc"
          "analog_ch_count outc1 = analog_ch_count outc"
          "logic_writes (trace w1) = logic_writes (trace w)"
        by (auto simp: logic_writes_append)
      define outc2 where
        "outc2 = outc1\<lparr>analog_buff := (analog_buff outc1)
                    [idx := (analog_buff outc1 ! idx)\<lparr>ab_fill_size := 0\<rparr>]\<rparr>"
      have step: "analog_flush_all idx outc w = analog_flush_all (idx + 1) outc2 w1"
        using lt False app by (subst analog_flush_all.simps) (simp add: Let_def outc2_def)
      have c2: "analog_ch_count outc2 = analog_ch_count outc" "logic_buff outc2 = logic_buff outc"
        using 1 by (simp_all add: outc2_def)
      from lt have "analog_ch_count outc2 - (idx + 1) < analog_ch_count outc - idx"
        by (simp add: c2)
      from less.hyps [OF this 1(1)]
      obtain outc' w' where "analog_flush_all (idx + 1) outc2 w1 = (SR_OK, outc', w')" "io_ok w'"
        "logic_buff outc' = logic_buff outc2" "analog_ch_count outc' = analog_ch_count outc2"
        "logic_writes (trace w') = logic_writes (trace w1)"
        by blast
      with step c2 1 show ?thesis by simp
    qed
  qed
qed

lemma dir_append_queue_end_io_ok:
  assumes "logic_ok outc" "io_ok w"
  shows "\<exists>outc' w' new.
           dir_append_queue outc w [] 0 0 True = Some (SR_OK, outc', w') \<and>
           logic_ok outc' \<and> io_ok w' \<and> logic_grows outc w outc' w' new \<and>
           length new \<le> 1 \<and> concat (map snd new) = logic_buffered outc"
proof (cases "lb_fill_size (logic_buff outc) = 0")
  case True
  then have "dir_append_queue outc w [] 0 0 True = Some (SR_OK, outc, w)"
    by (simp add: dir_append_queue_def)
  moreover from True have "logic_buffered outc = []"
    by (simp add: logic_buffered_def)
  ultimately have "dir_append_queue outc w [] 0 0 True = Some (SR_OK, outc, w) \<and>
           logic_ok outc \<and> io_ok w \<and> logic_grows outc w outc w [] \<and>
           length ([] :: (32 word \<times> byte list) list) \<le> 1 \<and>
           concat (map snd ([] :: (32 word \<times> byte list) list)) = logic_buffered outc"
    using assms by (simp add: logic_grows_refl)
  then show ?thesis
    by (intro exI)
next
  case False
  let ?b = "logic_buff outc"
  from False have pos: "0 < lb_fill_size ?b" by simp
  from logic_flush_io_ok [OF assms pos] obtain w2 where
    app: "dir_append outc w (lb_samples ?b) (lb_unit_size ?b)
            (lb_fill_size ?b * lb_unit_size ?b) =
          (SR_OK, outc\<lparr>logic_buff := ?b\<lparr>lb_next_chunk_num := lb_next_chunk_num ?b + 1\<rparr>\<rparr>, w2)"
    and w2: "io_ok w2"
      "logic_writes (trace w2) =
         logic_writes (trace w) @ [(lb_next_chunk_num ?b, logic_buffered outc)]"
    by auto
  define outc2 where
    "outc2 = outc\<lparr>logic_buff := ?b\<lparr>lb_next_chunk_num := lb_next_chunk_num ?b + 1,
                                        lb_fill_size := 0\<rparr>\<rparr>"
  have res: "dir_append_queue outc w [] 0 0 True = Some (SR_OK, outc2, w2)"
    using False app assms(1) by (simp add: dir_append_queue_def outc2_def logic_ok_def)
  have ok2: "logic_ok outc2"
    using assms(1) by (simp add: logic_ok_def outc2_def)
  have g: "logic_grows outc w outc2 w2 [(lb_next_chunk_num ?b, logic_buffered outc)]"
    using w2 by (simp add: logic_grows_def outc2_def)
  have "dir_append_queue outc w [] 0 0 True = Some (SR_OK, outc2, w2) \<and>
           logic_ok outc2 \<and> io_ok w2 \<and>
           logic_grows outc w outc2 w2 [(lb_next_chunk_num ?b, logic_buffered outc)] \<and>
           length [(lb_next_chunk_num ?b, logic_buffered outc)] \<le> 1 \<and>
           concat (map snd [(lb_next_chunk_num ?b, logic_buffered outc)]) = logic_buffered outc"
    using res ok2 w2(1) g by simp
  then show ?thesis
    by (intro exI)
qed

lemma receive_logic_io_ok:
  assumes "sdi out = Some d" "priv out = Some outc" "dir_created outc" "logic_ok outc" "io_ok w"
  shows "\<exists>outc' w' new.
           receive (Some out) (logic_packet (lb_unit_size (logic_buff outc)) bs) w =
             Some (SR_OK, Some (out\<lparr>priv := Some outc'\<rparr>), w') \<and>
           logic_ok outc' \<and> io_ok w' \<and> logic_grows outc w outc' w' new \<and>
           (\<forall>c \<in> set new. length (snd c) =
              lb_alloc_size (logic_buff outc) * lb_unit_size (logic_buff outc)) \<and>
           concat (map snd new) @ logic_buffered outc' =
             logic_buffered outc @ whole_samples (lb_unit_size (logic_buff outc)) bs"
proof -
  let ?u = "lb_unit_size (logic_buff outc)"
  from dir_append_queue_noflush_io_ok [OF assms(4,5) refl, of "length bs" bs]
  obtain outc' w' new where
    q: "dir_append_queue outc w bs ?u (length bs) False = Some (SR_OK, outc', w')"
    and 1: "logic_ok outc'" "io_ok w'" "logic_grows outc w outc' w' new"
      "\<forall>c \<in> set new. length (snd c) = lb_alloc_size (logic_buff outc) * ?u"
      "concat (map snd new) @ logic_buffered outc' =
         logic_buffered outc @ take (length bs div ?u * ?u) bs"
    by auto
  have "receive (Some out) (logic_packet ?u bs) w =
      Some (SR_OK, Some (out\<lparr>priv := Some outc'\<rparr>), w')"
    using assms(1,2,3) q
    by (simp add: receive_def receive_packet_def ensure_dir_def logic_packet_def)
  with 1 have "receive (Some out) (logic_packet ?u bs) w =
             Some (SR_OK, Some (out\<lparr>priv := Some outc'\<rparr>), w') \<and>
           logic_ok outc' \<and> io_ok w' \<and> logic_grows outc w outc' w' new \<and>
           (\<forall>c \<in> set new. length (snd c) = lb_alloc_size (logic_buff outc) * ?u) \<and>
           concat (map snd new) @ logic_buffered outc' =
             logic_buffered outc @ whole_samples ?u bs"
    by (simp add: whole_samples_def)
  then show ?thesis
    by (intro exI)
qed

lemma session_logic_blocks:
  assumes "sdi out = Some d" "priv out = Some outc" "dir_created outc" "logic_ok outc" "io_ok w"
    and "u = lb_unit_size (logic_buff outc)"
  shows "\<exists>outc' w' new.
           session (Some out) w (map (logic_packet u) blocks @ rest) =
             session (Some (out\<lparr>priv := Some outc'\<rparr>)) w' rest \<and>
           logic_ok outc' \<and> io_ok w' \<and> logic_grows outc w outc' w' new \<and>
           (\<forall>c \<in> set new. length (snd c) = lb_alloc_size (logic_buff outc) * u) \<and>
           concat (map snd new) @ logic_buffered outc' =
             logic_buffered outc @ concat (map (whole_samples u) blocks)"
  using assms
proof (induction blocks arbitrary: out outc w)
  case Nil
  have eq: "out\<lparr>priv := Some outc\<rparr> = out"
    using Nil.prems(2) by simp
  have "session (Some out) w (map (logic_packet u) [] @ rest) =
             session (Some (out\<lparr>priv := Some outc\<rparr>)) w rest \<and>
           logic_ok outc \<and> io_ok w \<and> logic_grows outc w outc w [] \<and>
           (\<forall>c \<in> set ([] :: (32 word \<times> byte list) list).
              length (snd c) = lb_alloc_size (logic_buff outc) * u) \<and>
           concat (map snd ([] :: (32 word \<times> byte list) list)) @ logic_buffered outc =
             logic_buffered outc @ concat (map (whole_samples u) [])"
    using Nil.prems(4,5) by (simp add: logic_grows_refl eq)
  then show ?case
    by (intro exI)
next
  case (Cons bs blocks)
  from receive_logic_io_ok [OF Cons.prems(1-5), of bs] Cons.prems(6)
  obtain outc1 w1 new1 where
    r: "receive (Some out) (logic_packet u bs) w =
             Some (SR_OK, Some (out\<lparr>priv := Some outc1\<rparr>), w1)"
    and 1: "logic_ok outc1" "io_ok w1" "logic_grows outc w outc1 w1 new1"
      "\<forall>c \<in> set new1. length (snd c) = lb_alloc_size (logic_buff outc) * u"
      "concat (map snd new1) @ logic_buffered outc1 = logic_buffered outc @ whole_samples u bs"
    by auto
  let ?out1 = "out\<lparr>priv := Some outc1\<rparr>"
  from 1(3) Cons.prems have same: "dir_created outc1" "u = lb_unit_size (logic_buff outc1)"
    "lb_alloc_size (logic_buff outc1) = lb_alloc_size (logic_buff outc)"
    by (simp_all add: logic_grows_def)
  have "sdi ?out1 = Some d" "priv ?out1 = Some outc1"
    using Cons.prems(1) by simp_all
  from Cons.IH [OF this same(1) 1(1,2) same(2)]
  obtain outc' w' new2 where
    s: "session (Some ?out1) w1 (map (logic_packet u) blocks @ rest) =
             session (Some (?out1\<lparr>priv := Some outc'\<rparr>)) w' rest"
    and 2: "logic_ok outc'" "io_ok w'" "logic_grows outc1 w1 outc' w' new2"
      "\<forall>c \<in> set new2. length (snd c) = lb_alloc_size (logic_buff outc1) * u"
      "concat (map snd new2) @ logic_buffered outc' =
         logic_buffered outc1 @ concat (map (whole_samples u) blocks)"
    by blast
  have "session (Some out) w (map (logic_packet u) (bs # blocks) @ rest) =
      session (Some (out\<lparr>priv := Some outc'\<rparr>)) w' rest"
    using r s by simp
  moreover have "logic_grows outc w outc' w' (new1 @ new2)"
    by (rule logic_grows_trans [OF 1(3) 2(3)])
  moreover have "\<forall>c \<in> set (new1 @ new2). length (snd c) = lb_alloc_size (logic_buff outc) * u"
    using 1(4) 2(4) same(3) by auto
  moreover have "concat (map snd (new1 @ new2)) @ logic_buffered outc' =
      logic_buffered outc @ concat (map (whole_samples u) (bs # blocks))"
  proof -
    have "concat (map snd (new1 @ new2)) @ logic_buffered outc' =
        concat (map snd new1) @ (concat (map snd new2) @ logic_buffered outc')"
      by simp
    also have "\<dots> = (concat (map snd new1) @ logic_buffered outc1) @
        concat (map (whole_samples u) blocks)"
      by (simp only: 2(5) append_assoc)
    also have "\<dots> = (logic_buffered outc @ whole_samples u bs) @
        concat (map (whole_samples u) blocks)"
      by (simp only: 1(5))
    finally show ?thesis by simp
  qed
  ultimately have "session (Some out) w (map (logic_packet u) (bs # blocks) @ rest) =
             session (Some (out\<lparr>priv := Some outc'\<rparr>)) w' rest \<and>
           logic_ok outc' \<and> io_ok w' \<and> logic_grows outc w outc' w' (new1 @ new2) \<and>
           (\<forall>c \<in> set (new1 @ new2). length (snd c) = lb_alloc_size (logic_buff outc) * u) \<and>
           concat (map snd (new1 @ new2)) @ logic_buffered outc' =
             logic_buffered outc @ concat (map (whole_samples u) (bs # blocks))"
    using 2(1,2) by (simp only: simp_thms)
  then show ?case
    by (intro exI)
qed

lemma receive_end_io_ok:
  assumes "sdi out = Some d" "priv out = Some outc" "dir_created outc" "logic_ok outc" "io_ok w"
  shows "\<exists>out' w' new.
           receive (Some out) SR_DF_END w = Some (SR_OK, Some out', w') \<and> io_ok w' \<and>
           logic_writes (trace w') = logic_writes (trace w) @ new \<and>
           numbered_from (lb_next_chunk_num (logic_buff outc)) new \<and>
           length new \<le> 1 \<and> concat (map snd new) = logic_buffered outc"
proof -
  from dir_append_queue_end_io_ok [OF assms(4,5)]
  obtain outc1 w1 new where
    q: "dir_append_queue outc w [] 0 0 True = Some (SR_OK, outc1, w1)"
    and 1: "io_ok w1" "logic_grows outc w outc1 w1 new" "length new \<le> 1"
      "concat (map snd new) = logic_buffered outc"
    by blast
  from analog_flush_all_io_ok [OF 1(1), of 0 outc1]
  obtain outc2 w2 where
    f: "analog_flush_all 0 outc1 w1 = (SR_OK, outc2, w2)"
    and 2: "io_ok w2" "logic_writes (trace w2) = logic_writes (trace w1)"
    by blast
  have "receive (Some out) SR_DF_END w = Some (SR_OK, Some (out\<lparr>priv := Some outc2\<rparr>), w2)"
    using assms(1,2,3) q f
    by (simp add: receive_def receive_packet_def dir_append_analog_queue_def)
  moreover have "logic_writes (trace w2) = logic_writes (trace w) @ new"
    "numbered_from (lb_next_chunk_num (logic_buff outc)) new"
    using 1(2) 2(2) by (simp_all add: logic_grows_def)
  ultimately have "receive (Some out) SR_DF_END w =
             Some (SR_OK, Some (out\<lparr>priv := Some outc2\<rparr>), w2) \<and> io_ok w2 \<and>
           logic_writes (trace w2) = logic_writes (trace w) @ new \<and>
           numbered_from (lb_next_chunk_num (logic_buff outc)) new \<and>
           length new \<le> 1 \<and> concat (map snd new) = logic_buffered outc"
    using 1(3,4) 2(1) by (simp only: simp_thms)
  then show ?thesis
    by (intro exI)
qed

lemma session_logic_stream:
  assumes "sdi out = Some d" "priv out = Some outc" "dir_created outc" "logic_ok outc" "io_ok w"
    and "u = lb_unit_size (logic_buff outc)"
  shows "\<exists>out' w' full last.
           session (Some out) w (map (logic_packet u) blocks @ [SR_DF_END]) =
             Some (SR_OK, Some out', w') \<and>
           logic_writes (trace w') = logic_writes (trace w) @ full @ last \<and>
           numbered_from (lb_next_chunk_num (logic_buff outc)) (full @ last) \<and>
           (\<forall>c \<in> set full. length (snd c) = lb_alloc_size (logic_buff outc) * u) \<and>
           length last \<le> 1 \<and>
           concat (map snd (full @ last)) =
             logic_buffered outc @ concat (map (whole_samples u) blocks)"
proof -
  from session_logic_blocks [OF assms, of blocks "[SR_DF_END]"]
  obtain outc1 w1 full where
    s: "session (Some out) w (map (logic_packet u) blocks @ [SR_DF_END]) =
          session (Some (out\<lparr>priv := Some outc1\<rparr>)) w1 [SR_DF_END]"
    and 1: "logic_ok outc1" "io_ok w1" "logic_grows outc w outc1 w1 full"
      "\<forall>c \<in> set full. length (snd c) = lb_alloc_size (logic_buff outc) * u"
      "concat (map snd full) @ logic_buffered outc1 =
         logic_buffered outc @ concat (map (whole_samples u) blocks)"
    by blast
  let ?out1 = "out\<lparr>priv := Some outc1\<rparr>"
  from 1(3) assms(3) have dc: "dir_created outc1"
    by (simp add: logic_grows_def)
  have "sdi ?out1 = Some d" "priv ?out1 = Some outc1"
    using assms(1) by simp_all
  from receive_end_io_ok [OF this dc 1(1,2)]
  obtain out' w' last where
    r: "receive (Some ?out1) SR_DF_END w1 = Some (SR_OK, Some out', w')"
    and 2: "logic_writes (trace w') = logic_writes (trace w1) @ last"
      "numbered_from (lb_next_chunk_num (logic_buff outc1)) last"
      "length last \<le> 1" "concat (map snd last) = logic_buffered outc1"
    by blast
  have "session (Some out) w (map (logic_packet u) blocks @ [SR_DF_END]) =
      Some (SR_OK, Some out', w')"
    using s r by simp
  moreover have "logic_writes (trace w') = logic_writes (trace w) @ full @ last"
    using 1(3) 2(1) by (simp add: logic_grows_def)
  moreover have "numbered_from (lb_next_chunk_num (logic_buff outc)) (full @ last)"
    using 1(3) 2(2) by (simp add: logic_grows_def numbered_from_append)
  moreover have "concat (map snd (full @ last)) =
      logic_buffered outc @ concat (map (whole_samples u) blocks)"
    using 1(5) 2(4) by simp
  ultimately have "session (Some out) w (map (logic_packet u) blocks @ [SR_DF_END]) =
             Some (SR_OK, Some out', w') \<and>
           logic_writes (trace w') = logic_writes (trace w) @ full @ last \<and>
           numbered_from (lb_next_chunk_num (logic_buff outc)) (full @ last) \<and>
           (\<forall>c \<in> set full. length (snd c) = lb_alloc_size (logic_buff outc) * u) \<and>
           length last \<le> 1 \<and>
           concat (map snd (full @ last)) =
             logic_buffered outc @ concat (map (whole_samples u) blocks)"
    using 1(4) 2(3) by (simp only: simp_thms)
  then show ?thesis
    by (intro exI)
qed

lemma numbered_from_unat:
  "numbered_from n xs \<Longrightarrow> unat n + length xs \<le> 2 ^ 32 \<Longrightarrow>
     map (\<lambda>c. unat (fst c)) xs = [unat n..<unat n + length xs]"
proof (induction xs arbitrary: n)
  case Nil
  then show ?case by simp
next
  case step: (Cons x xs)
  obtain m y where x: "x = (m, y)" by (cases x)
  with step.prems have m: "m = n" and rest: "numbered_from (n + 1) xs"
    by simp_all
  show ?case
  proof (cases "xs = []")
    case True
    with x m show ?thesis by (simp add: upt_rec)
  next
    case False
    then have "0 < length xs" by simp
    moreover from step.prems(2) have "unat n + 1 + length xs \<le> 2 ^ 32" by simp
    ultimately have "unat n + 1 < 2 ^ 32" by linarith
    then have suc: "unat (n + 1) = unat n + 1"
      using unat_add_lem [of n 1] by simp
    with step.prems(2) have "unat (n + 1) + length xs \<le> 2 ^ 32" by simp
    from step.IH [OF rest this] suc
    have "map (\<lambda>c. unat (fst c)) xs = [unat n + 1..<unat n + 1 + length xs]"
      by simp
    moreover have "[unat n..<unat n + length (x # xs)] =
        unat n # [unat n + 1..<unat n + 1 + length xs]"
      by (subst upt_conv_Cons) simp_all
    ultimately show ?thesis
      using x m by simp
  qed
qed

lemma length_concat_uniform:
  "(\<forall>c \<in> set xs. length (snd c) = k) \<Longrightarrow> length (concat (map snd xs)) = length xs * k"
  by (induction xs) simp_all

lemma whole_samples_id: "0 < u \<Longrightarrow> length bs mod u = 0 \<Longrightarrow> whole_samples u bs = bs"
  by (simp add: whole_samples_def flip: dvd_eq_mod_eq_0)

lemma map_whole_samples_id:
  "0 < u \<Longrightarrow> \<forall>bs \<in> set blocks. length bs mod u = 0 \<Longrightarrow> map (whole_samples u) blocks = blocks"
  by (induction blocks) (simp_all add: whole_samples_id)

lemma logic_ok_ex_ready9: "logic_ok ex_ready9"
  by (simp add: logic_ok_def ex_ready9_def fresh_logic_buffer_def CHUNK_SIZE_def)

lemma ex_ready9_facts:
  "lb_unit_size (logic_buff ex_ready9) = 2"
  "lb_alloc_size (logic_buff ex_ready9) = 2097152"
  "lb_fill_size (logic_buff ex_ready9) = 0"
  "lb_next_chunk_num (logic_buff ex_ready9) = 1"
  "logic_buffered ex_ready9 = []"
  "dir_created ex_ready9"
  "length (analog_buff ex_ready9) = analog_ch_count ex_ready9"
  by (simp_all add: ex_ready9_def fresh_logic_buffer_def CHUNK_SIZE_def logic_buffered_def)

lemma ex_out9_facts: "sdi ex_out9 = Some ex_dev9" "priv ex_out9 = Some ex_ready9"
  by (simp_all add: ex_out9_def)

text \<open>
  C1 (as amended): in a state that \<^verbatim>\<open>dir_create\<close> has set up (unit size \<open>u > 0\<close>, a
  capacity of at least one sample, one analog buffer for each analog channel, so that the
  flush at the end of the stream reads no buffer out of range), feed any sequence of logic
  blocks whose lengths are each a multiple of \<open>u\<close> and then the end of stream, with every
  chunk write succeeding.
  The session returns \<^verbatim>\<open>SR_OK\<close>; the logic chunks it has written carry consecutive
  chunk numbers that begin with the buffer's \<open>next_chunk_num\<close> and ascend in the order of
  the writes (the counter does not wrap as long as the stream is short of \<open>2^32\<close>
  buffers); and their bytes, concatenated in that order, are the bytes that the buffer
  held before followed by the concatenation of all blocks.
\<close>

theorem session_logic_round_trip:
  assumes "sdi out = Some d" and "priv out = Some outc" and "dir_created outc"
    and "logic_ok outc" and "length (analog_buff outc) = analog_ch_count outc"
    and "io_ok w"
    and "u = lb_unit_size (logic_buff outc)"
    and "\<forall>bs \<in> set blocks. length bs mod u = 0"
    and "unat (lb_next_chunk_num (logic_buff outc)) +
           (length (logic_buffered outc) + length (concat blocks))
             div (lb_alloc_size (logic_buff outc) * u) + 1 \<le> 2 ^ 32"
  shows "\<exists>out' w' new.
           session (Some out) w (map (logic_packet u) blocks @ [SR_DF_END]) =
             Some (SR_OK, Some out', w') \<and>
           logic_writes (trace w') = logic_writes (trace w) @ new \<and>
           map (\<lambda>c. unat (fst c)) new =
             [unat (lb_next_chunk_num (logic_buff outc))..<
                unat (lb_next_chunk_num (logic_buff outc)) + length new] \<and>
           concat (map snd new) = logic_buffered outc @ concat blocks"
proof -
  let ?cap = "lb_alloc_size (logic_buff outc) * u"
  let ?total = "length (logic_buffered outc) + length (concat blocks)"
  from assms(4,7) have u: "0 < u" and cap: "0 < ?cap"
    by (simp_all add: logic_ok_def)
  from session_logic_stream [OF assms(1,2,3,4,6,7), of blocks]
  obtain out' w' full last where
    s: "session (Some out) w (map (logic_packet u) blocks @ [SR_DF_END]) =
          Some (SR_OK, Some out', w')"
    and lw: "logic_writes (trace w') = logic_writes (trace w) @ full @ last"
    and nf: "numbered_from (lb_next_chunk_num (logic_buff outc)) (full @ last)"
    and fl: "\<forall>c \<in> set full. length (snd c) = ?cap"
    and la: "length last \<le> 1"
    and cc: "concat (map snd (full @ last)) =
               logic_buffered outc @ concat (map (whole_samples u) blocks)"
    by blast
  from map_whole_samples_id [OF u assms(8)] cc
  have data: "concat (map snd (full @ last)) = logic_buffered outc @ concat blocks"
    by simp
  have "length full * ?cap = length (concat (map snd full))"
    using length_concat_uniform [OF fl] by simp
  also have "\<dots> \<le> length (concat (map snd (full @ last)))"
    by simp
  also have "\<dots> = ?total"
    by (simp only: data length_append)
  finally have "length full \<le> ?total div ?cap"
    using cap by (simp add: less_eq_div_iff_mult_less_eq)
  with la assms(9) have "unat (lb_next_chunk_num (logic_buff outc)) + length (full @ last) \<le> 2 ^ 32"
    by simp
  from numbered_from_unat [OF nf this]
  have "map (\<lambda>c. unat (fst c)) (full @ last) =
      [unat (lb_next_chunk_num (logic_buff outc))..<
         unat (lb_next_chunk_num (logic_buff outc)) + length (full @ last)]" .
  with s lw data have "session (Some out) w (map (logic_packet u) blocks @ [SR_DF_END]) =
             Some (SR_OK, Some out', w') \<and>
           logic_writes (trace w') = logic_writes (trace w) @ (full @ last) \<and>
           map (\<lambda>c. unat (fst c)) (full @ last) =
             [unat (lb_next_chunk_num (logic_buff outc))..<
                unat (lb_next_chunk_num (logic_buff outc)) + length (full @ last)] \<and>
           concat (map snd (full @ last)) = logic_buffered outc @ concat blocks"
    by (simp only: simp_thms)
  then show ?thesis
    by (intro exI)
qed

theorem session_logic_round_trip_witness:
  "\<exists>out' w' new.
     session (Some ex_out9) ex_world
       (map (logic_packet 2) [[1, 2, 3, 4], [], [5, 6]] @ [SR_DF_END]) =
       Some (SR_OK, Some out', w') \<and>
     logic_writes (trace w') = new \<and>
     map (\<lambda>c. unat (fst c)) new = [1..<1 + length new] \<and>
     concat (map snd new) = [1, 2, 3, 4, 5, 6]"
proof -
  have "\<forall>bs \<in> set [[1, 2, 3, 4], [], [5, 6 :: byte]]. length bs mod 2 = 0"
    by simp
  moreover have "unat (lb_next_chunk_num (logic_buff ex_ready9)) +
           (length (logic_buffered ex_ready9) + length (concat [[1, 2, 3, 4], [], [5, 6 :: byte]]))
             div (lb_alloc_size (logic_buff ex_ready9) * 2) + 1 \<le> 2 ^ 32"
    by (simp add: ex_ready9_facts)
  moreover note session_logic_round_trip
      [OF ex_out9_facts ex_ready9_facts(6) logic_ok_ex_ready9 ex_ready9_facts(7) io_ok_ex_world
        ex_ready9_facts(1) [symmetric], of "[[1, 2, 3, 4], [], [5, 6]]"]
  ultimately show ?thesis
    by (simp add: ex_ready9_facts ex_world_def)
qed

theorem session_logic_drops_partial_samples:
  "length (concat [[1, 2, 3], [4, 5, 6 :: byte]]) mod lb_unit_size (logic_buff ex_ready9) = 0 \<and>
   (\<exists>out' w'.
      session (Some ex_out9) ex_world
        (map (logic_packet (lb_unit_size (logic_buff ex_ready9))) [[1, 2, 3], [4, 5, 6]]
           @ [SR_DF_END]) =
        Some (SR_OK, Some out', w') \<and>
      concat (map snd (logic_writes (trace w'))) = [1, 2, 4, 5] \<and>
      concat (map snd (logic_writes (trace w'))) \<noteq> concat [[1, 2, 3], [4, 5, 6]])"
proof -
  from session_logic_stream
    [OF ex_out9_facts ex_ready9_facts(6) logic_ok_ex_ready9 io_ok_ex_world refl,
      of "[[1, 2, 3], [4, 5, 6]]"]
  obtain out' w' full last where
    s: "session (Some ex_out9) ex_world
          (map (logic_packet (lb_unit_size (logic_buff ex_ready9))) [[1, 2, 3], [4, 5, 6]]
             @ [SR_DF_END]) = Some (SR_OK, Some out', w')"
    and lw: "logic_writes (trace w') = logic_writes (trace ex_world) @ full @ last"
    and cc: "concat (map snd (full @ last)) =
               logic_buffered ex_ready9 @
               concat (map (whole_samples (lb_unit_size (logic_buff ex_ready9)))
                 [[1, 2, 3], [4, 5, 6]])"
    by blast
  from lw cc have "concat (map snd (logic_writes (trace w'))) = [1, 2, 4, 5]"
    by (simp add: ex_world_def ex_ready9_facts whole_samples_def)
  with s show ?thesis
    by (auto simp: ex_ready9_facts)
qed



lemma trace_sr_log [simp]: "trace (sr_log lvl fmt w) = trace w"
  by (simp add: sr_log_def)

lemma chunk_step_refl [simp]: "chunk_step w w"
  by (simp add: chunk_step_def)

lemma chunk_writes_append: "chunk_writes evs \<Longrightarrow> chunk_writes evs' \<Longrightarrow> chunk_writes (evs @ evs')"
  by (induction evs rule: chunk_writes.induct) simp_all

lemma chunk_step_trans: "chunk_step w w1 \<Longrightarrow> chunk_step w1 w2 \<Longrightarrow> chunk_step w w2"
  by (auto simp: chunk_step_def intro: chunk_writes_append)

lemma chunk_step_sr_log [simp]: "chunk_step w (sr_log lvl fmt w') = chunk_step w w'"
  by (simp add: chunk_step_def)

lemma chunk_step_emit: "trace w' = trace w @ evs \<Longrightarrow> chunk_writes evs \<Longrightarrow> chunk_step w w'"
  by (auto simp: chunk_step_def)

lemma logic_frame_refl [simp]: "logic_frame outc outc"
  by (simp add: logic_frame_def)

lemma logic_frame_trans: "logic_frame a b \<Longrightarrow> logic_frame b c \<Longrightarrow> logic_frame a c"
  by (simp add: logic_frame_def)

lemma logic_frame_update [simp]: "logic_frame outc (outc'\<lparr>logic_buff := b\<rparr>) = logic_frame outc outc'"
  by (simp add: logic_frame_def)

lemma logic_frame_update_left [simp]:
  "logic_frame (outc\<lparr>logic_buff := b\<rparr>) outc' = logic_frame outc outc'"
  by (simp add: logic_frame_def)

lemma dir_append_step:
  assumes "dir_append outc w buf unitsize len = (ret, outc', w')"
  shows "chunk_step w w' \<and> logic_frame outc outc'"
proof (cases "len = 0")
  case True
  with assms show ?thesis by (simp add: dir_append_def)
next
  case False
  define w0 where "w0 = (if len mod unitsize \<noteq> 0
             then sr_log LOG_WARN ''Chunk size %zu not a multiple of the unit size %zu.'' w else w)"
  let ?f = "File_logic (lb_next_chunk_num (logic_buff outc))"
  have t0: "trace w0 = trace w" by (simp add: w0_def)
  obtain ok1 w1 where o: "g_fopen ?f w0 = (ok1, w1)" by (cases "g_fopen ?f w0")
  obtain ok2 w2 where wr: "fwrite1 ?f (Bytes (map buf [0..<len])) w1 = (ok2, w2)"
    by (cases "fwrite1 ?f (Bytes (map buf [0..<len])) w1")
  from g_fopen_D [OF o] t0 have t1: "trace w1 = trace w @ [Ev_fopen ?f ok1]" by simp
  from fwrite1_D [OF wr] t1
  have t2: "trace w2 = trace w @ [Ev_fopen ?f ok1, Ev_fwrite ?f (Bytes (map buf [0..<len])) ok2]"
    by simp
  have "dir_append outc w buf unitsize len =
      (if \<not> ok1 then (SR_ERR, outc, sr_log LOG_ERR ''Failed to add chunk '%s': %s'' w1)
       else if \<not> ok2 then (SR_ERR, outc, sr_log LOG_ERR ''Failed to add chunk '%s': %s'' w2)
       else (SR_OK,
             outc\<lparr>logic_buff := (logic_buff outc)
                \<lparr>lb_next_chunk_num := lb_next_chunk_num (logic_buff outc) + 1\<rparr>\<rparr>, w2))"
    using False o wr unfolding dir_append_def Let_def w0_def [symmetric]
    by (simp split: bool.splits)
  with assms have "logic_frame outc outc'" "trace w' = trace w1 \<and> \<not> ok1 \<or> trace w' = trace w2 \<and> ok1"
    by (auto split: if_splits)
  with t1 t2 False show ?thesis
    by (auto simp: chunk_step_def)
qed

lemma logic_copy_frame:
  "logic_copy outc rdptr n = (outc1, rdptr1, n1, remain1) \<Longrightarrow> logic_frame outc outc1"
  by (auto simp: logic_copy_def Let_def split: if_splits)

lemmas logic_queue_loop_induct =
  logic_queue_loop.raw_induct [rotated 1, consumes 1, case_names step]

lemmas analog_queue_loop_induct =
  analog_queue_loop.raw_induct [rotated 1, consumes 1, case_names step]

lemma logic_queue_loop_step_aux:
  "logic_queue_loop outc w rdptr n = Some y \<Longrightarrow>
     chunk_step w (snd (snd y)) \<and> logic_frame outc (fst (snd y))"
proof (induction rule: logic_queue_loop_induct)
  case (step loop outc w rdptr send_size y)
  note 1 = step
  show ?case
  proof (cases "send_size = 0")
    case True
    with 1(2) show ?thesis by auto
  next
    case False
    obtain outc1 rdptr1 send_size1 remain1 where
      c: "logic_copy outc rdptr send_size = (outc1, rdptr1, send_size1, remain1)"
      by (cases "logic_copy outc rdptr send_size")
    note f1 = logic_copy_frame [OF c]
    show ?thesis
    proof (cases "send_size1 \<noteq> 0 \<and> remain1 = 0")
      case flush: True
      obtain r2 outc2 w2 where
        a: "dir_append outc1 w (lb_samples (logic_buff outc1)) (lb_unit_size (logic_buff outc1))
              (lb_fill_size (logic_buff outc1) * lb_unit_size (logic_buff outc1)) = (r2, outc2, w2)"
        by (metis prod_cases3)
      note s2 = dir_append_step [OF a]
      show ?thesis
      proof (cases "r2 = SR_OK")
        case False
        with 1(2) \<open>send_size \<noteq> 0\<close> c flush a have "y = (r2, outc2, w2)"
          by simp
        with s2 f1 show ?thesis
          by (auto simp: logic_frame_def)
      next
        case True
        with 1(2) \<open>send_size \<noteq> 0\<close> c flush a
        have "loop (outc2\<lparr>logic_buff := (logic_buff outc2)\<lparr>lb_fill_size := 0\<rparr>\<rparr>) w2 rdptr1 send_size1 =
            Some y"
          by simp
        from 1(1) [OF this] s2 f1 show ?thesis
          by (auto simp: logic_frame_def intro: chunk_step_trans)
      qed
    next
      case False
      with 1(2) \<open>send_size \<noteq> 0\<close> c have "loop outc1 w rdptr1 send_size1 = Some y"
        by auto
      from 1(1) [OF this] f1 show ?thesis
        by (auto simp: logic_frame_def)
    qed
  qed
qed

lemma logic_queue_loop_step:
  assumes "logic_queue_loop outc w rdptr n = Some (ret, outc', w')"
  shows "chunk_step w w' \<and> logic_frame outc outc'"
  using logic_queue_loop_step_aux [OF assms] by simp

lemma dir_append_queue_step:
  assumes "dir_append_queue outc w buf unitsize len flush = Some (ret, outc', w')"
  shows "chunk_step w w' \<and> logic_frame outc outc'"
proof (cases "len \<noteq> 0 \<and> unitsize \<noteq> lb_unit_size (logic_buff outc)")
  case True
  with assms show ?thesis
    by (auto simp: dir_append_queue_def)
next
  case False
  let ?n = "if lb_unit_size (logic_buff outc) \<noteq> 0 then len div lb_unit_size (logic_buff outc) else 0"
  from assms False obtain r1 outc1 w1 where
    l: "logic_queue_loop outc w buf ?n = Some (r1, outc1, w1)"
    by (auto simp: dir_append_queue_def Let_def split: option.splits)
  note s1 = logic_queue_loop_step [OF l]
  show ?thesis
  proof (cases "r1 = SR_OK \<and> flush \<and> lb_fill_size (logic_buff outc1) \<noteq> 0")
    case False
    with assms \<open>\<not> (len \<noteq> 0 \<and> unitsize \<noteq> lb_unit_size (logic_buff outc))\<close> l
    have "outc' = outc1" "w' = w1"
      by (auto simp: dir_append_queue_def Let_def split: if_splits)
    with s1 show ?thesis by simp
  next
    case True
    obtain r2 outc2 w2 where
      a: "dir_append outc1 w1 (lb_samples (logic_buff outc1)) (lb_unit_size (logic_buff outc1))
            (lb_fill_size (logic_buff outc1) * lb_unit_size (logic_buff outc1)) = (r2, outc2, w2)"
      by (metis prod_cases3)
    note s2 = dir_append_step [OF a]
    from assms \<open>\<not> (len \<noteq> 0 \<and> unitsize \<noteq> lb_unit_size (logic_buff outc))\<close> l True a
    have "w' = w2" "logic_frame outc2 outc'"
      by (auto simp: dir_append_queue_def Let_def split: if_splits)
    with s1 s2 show ?thesis
      by (auto simp: logic_frame_def intro: chunk_step_trans)
  qed
qed

lemma dir_create_trace:
  assumes "dir_create d outc w = (ret, outc', w')"
  shows "\<exists>ok evs. trace w' = trace w @ Ev_mkdir (filename outc) ok # evs \<and> list_all setup_io evs"
proof -
  define outc1 where "outc1 = (if samplerate outc = 0
              then (case conf_samplerate d of Some r \<Rightarrow> outc\<lparr>samplerate := r\<rparr> | None \<Rightarrow> outc)
              else outc)"
  have fn: "filename outc1 = filename outc"
    by (simp add: outc1_def split: option.splits)
  from assms show ?thesis
    unfolding dir_create_def Let_def outc1_def [symmetric] fn
    by (auto split: prod.splits bool.splits if_splits
        dest!: g_mkdir_D g_chdir_D g_fopen_D fwrite1_D g_try_malloc0_D init_analog_buffs_D)
qed

lemma dir_create_layout_dir_created:
  "dir_created (fst (dir_create_layout d outc)) = dir_created outc"
  by (simp add: dir_create_layout_def Let_def split: prod.splits)

lemma dir_create_dir_created:
  assumes "dir_create d outc w = (ret, outc', w')"
  shows "dir_created outc' = dir_created outc"
proof -
  define outc1 where "outc1 = (if samplerate outc = 0
              then (case conf_samplerate d of Some r \<Rightarrow> outc\<lparr>samplerate := r\<rparr> | None \<Rightarrow> outc)
              else outc)"
  have 1: "dir_created outc1 = dir_created outc"
    by (simp add: outc1_def split: option.splits)
  obtain outc4 meta4 lc where lay: "dir_create_layout d outc1 = (outc4, meta4, lc)"
    by (cases "dir_create_layout d outc1")
  with dir_create_layout_dir_created [of d outc1] 1 have 4: "dir_created outc4 = dir_created outc"
    by simp
  from assms show ?thesis
    unfolding dir_create_def Let_def outc1_def [symmetric] lay
    using 1 4 by (auto split: prod.splits bool.splits)
qed

lemma dir_create_analog_ok:
  assumes "dir_create d outc w = (SR_OK, outc', w')"
  shows "analog_ok outc'"
proof -
  obtain outc4 :: out_context and bufs w5 w6 where
    i: "init_analog_buffs 0 (analog_ch_count outc4)
          (replicate (analog_ch_count outc4) zero_analog_buffer) w5 = (True, bufs, w6)"
    and c: "analog_ch_count outc' = analog_ch_count outc4" "analog_buff outc' = bufs"
  proof (rule dir_create_SR_OK_D [OF assms])
    fix outc1 w1 w2 w3 w4 outc4 meta4 lc w5 bufs w6 w7
    assume a1: "init_analog_buffs 0 (analog_ch_count outc4)
       (replicate (analog_ch_count outc4) zero_analog_buffer) w5 = (True, bufs, w6)"
      and a2: "outc' = outc4\<lparr>logic_buff :=
                \<lparr>lb_unit_size = (unat lc + 7) div 8,
                 lb_alloc_size = (if (unat lc + 7) div 8 \<noteq> 0
                                  then CHUNK_SIZE div ((unat lc + 7) div 8) else CHUNK_SIZE),
                 lb_samples = (\<lambda>_. 0),
                 lb_fill_size = 0,
                 lb_next_chunk_num = 1\<rparr>,
              analog_buff := bufs\<rparr>"
    show thesis
      by (rule that [OF a1]) (simp_all add: a2)
  qed
  from init_analog_buffs_True [OF i]
  have "length bufs = analog_ch_count outc4"
    and "\<forall>j<analog_ch_count outc4. bufs ! j =
           \<lparr>ab_alloc_size = CHUNK_SIZE div sizeof_float, ab_samples = (\<lambda>_. 0),
            ab_fill_size = 0, ab_next_chunk_num = 1\<rparr>"
    by simp_all
  then show ?thesis
    by (auto simp: analog_ok_def c in_set_conv_nth CHUNK_SIZE_def sizeof_float_def)
qed

lemma analog_ok_update:
  assumes "analog_ok outc" "0 < ab_alloc_size b" "ab_fill_size b \<le> ab_alloc_size b"
  shows "analog_ok (outc\<lparr>analog_buff := (analog_buff outc)[idx := b]\<rparr>)"
  using assms set_update_subset_insert [of "analog_buff outc" idx b]
  by (auto simp: analog_ok_def)

lemma analog_ok_nth:
  "analog_ok outc \<Longrightarrow> idx < analog_ch_count outc \<Longrightarrow>
     0 < ab_alloc_size (analog_buff outc ! idx) \<and>
     ab_fill_size (analog_buff outc ! idx) \<le> ab_alloc_size (analog_buff outc ! idx)"
  by (simp add: analog_ok_def)

lemma analog_frame_refl [simp]: "analog_frame outc outc"
  by (simp add: analog_frame_def)

lemma analog_frame_update [simp]:
  "analog_frame outc (outc'\<lparr>analog_buff := b\<rparr>) = analog_frame outc outc'"
  "analog_frame (outc\<lparr>analog_buff := b\<rparr>) outc' = analog_frame outc outc'"
  by (simp_all add: analog_frame_def)

lemma analog_frame_trans: "analog_frame a b \<Longrightarrow> analog_frame b c \<Longrightarrow> analog_frame a c"
  by (simp add: analog_frame_def)

lemma dir_append_analog_step:
  assumes "dir_append_analog outc w vals count (first_analog_index outc + idx) = (ret, outc', w')"
    and "0 < count" "analog_ok outc" "idx < analog_ch_count outc"
  shows "chunk_step w w' \<and> analog_ok outc' \<and> analog_frame outc outc' \<and>
         ab_fill_size (analog_buff outc' ! idx) = ab_fill_size (analog_buff outc ! idx) \<and>
         ab_alloc_size (analog_buff outc' ! idx) = ab_alloc_size (analog_buff outc ! idx)"
proof -
  have idx: "size_sub (first_analog_index outc + idx) (first_analog_index outc) = idx"
    by (simp add: size_sub_def)
  let ?buff = "analog_buff outc ! idx"
  let ?f = "File_analog (first_analog_index outc + idx) (ab_next_chunk_num ?buff)"
  obtain ok1 w1 where o: "g_fopen ?f w = (ok1, w1)" by (cases "g_fopen ?f w")
  obtain ok2 w2 where wr: "fwrite1 ?f (Floats (map vals [0..<count])) w1 = (ok2, w2)"
    by (cases "fwrite1 ?f (Floats (map vals [0..<count])) w1")
  from g_fopen_D [OF o] have t1: "trace w1 = trace w @ [Ev_fopen ?f ok1]" by simp
  from fwrite1_D [OF wr] t1
  have t2: "trace w2 = trace w @ [Ev_fopen ?f ok1, Ev_fwrite ?f (Floats (map vals [0..<count])) ok2]"
    by simp
  from assms(1) o wr
  have o': "outc' = outc\<lparr>analog_buff := (analog_buff outc)
                [idx := ?buff\<lparr>ab_next_chunk_num := ab_next_chunk_num ?buff + 1\<rparr>]\<rparr>"
    and w': "trace w' = trace w1 \<and> \<not> ok1 \<or> trace w' = trace w2 \<and> ok1"
    by (auto simp: dir_append_analog_def Let_def idx split: bool.splits)
  from analog_ok_nth [OF assms(3,4)]
  have "analog_ok outc'"
    unfolding o' by (intro analog_ok_update [OF assms(3)]) simp_all
  moreover have "chunk_step w w'"
    using w' t1 t2 assms(2) by (auto simp: chunk_step_def sizeof_float_def)
  moreover have "ab_fill_size (analog_buff outc' ! idx) = ab_fill_size ?buff"
    "ab_alloc_size (analog_buff outc' ! idx) = ab_alloc_size ?buff"
    using assms(3,4) by (simp_all add: o' analog_ok_def)
  ultimately show ?thesis
    by (simp add: o')
qed

lemma analog_copy_step:
  assumes "analog_copy outc idx rdptr n = (outc1, rdptr1, n1, remain1)"
    and "analog_ok outc" "idx < analog_ch_count outc"
  shows "analog_ok outc1 \<and> analog_frame outc outc1 \<and>
         (remain1 = 0 \<longrightarrow> 0 < ab_fill_size (analog_buff outc1 ! idx))"
proof -
  let ?buff = "analog_buff outc ! idx"
  from analog_ok_nth [OF assms(2,3)]
  have a: "0 < ab_alloc_size ?buff" and f: "ab_fill_size ?buff \<le> ab_alloc_size ?buff"
    by simp_all
  from assms(2,3) have len: "idx < length (analog_buff outc)"
    by (simp add: analog_ok_def)
  show ?thesis
  proof (cases "ab_fill_size ?buff = ab_alloc_size ?buff")
    case True
    with assms(1) have "outc1 = outc" "remain1 = 0"
      by (simp_all add: analog_copy_def size_sub_def Let_def)
    with assms(2) a True show ?thesis by simp
  next
    case False
    with f have lt: "ab_fill_size ?buff < ab_alloc_size ?buff" by simp
    define k where "k = min n (ab_alloc_size ?buff - ab_fill_size ?buff)"
    from lt assms(1)
    have o1: "outc1 = outc\<lparr>analog_buff := (analog_buff outc)
                 [idx := ?buff\<lparr>ab_fill_size := ab_fill_size ?buff + k,
                               ab_samples := memcpy (ab_samples ?buff) (ab_fill_size ?buff) rdptr k\<rparr>]\<rparr>"
      and r1: "remain1 = ab_alloc_size ?buff - ab_fill_size ?buff - k"
      by (simp_all add: analog_copy_def size_sub_def Let_def k_def)
    have k: "ab_fill_size ?buff + k \<le> ab_alloc_size ?buff"
      using lt by (simp add: k_def)
    have "analog_ok outc1"
      unfolding o1 using a k by (intro analog_ok_update [OF assms(2)]) simp_all
    moreover have "remain1 = 0 \<longrightarrow> 0 < ab_fill_size (analog_buff outc1 ! idx)"
      using r1 lt k len by (auto simp: o1)
    ultimately show ?thesis
      by (simp add: o1)
  qed
qed

lemma analog_queue_loop_step_aux:
  "analog_queue_loop outc w idx nr rdptr n = Some y \<Longrightarrow>
     analog_ok outc \<longrightarrow> idx < analog_ch_count outc \<longrightarrow> nr = first_analog_index outc + idx \<longrightarrow>
     chunk_step w (snd (snd y)) \<and> analog_ok (fst (snd y)) \<and> analog_frame outc (fst (snd y))"
proof (induction rule: analog_queue_loop_induct)
  case (step loop outc w idx nr rdptr send_size y)
  show ?case
  proof (intro impI)
    assume ok: "analog_ok outc" and idx: "idx < analog_ch_count outc"
      and nr: "nr = first_analog_index outc + idx"
    show "chunk_step w (snd (snd y)) \<and> analog_ok (fst (snd y)) \<and> analog_frame outc (fst (snd y))"
    proof (cases "send_size = 0")
      case True
      with step(2) ok show ?thesis by auto
    next
      case False
      obtain outc1 rdptr1 send_size1 remain1 where
        c: "analog_copy outc idx rdptr send_size = (outc1, rdptr1, send_size1, remain1)"
        by (cases "analog_copy outc idx rdptr send_size")
      from analog_copy_step [OF c ok idx]
      have ok1: "analog_ok outc1" and f1: "analog_frame outc outc1"
        and pos: "remain1 = 0 \<longrightarrow> 0 < ab_fill_size (analog_buff outc1 ! idx)"
        by simp_all
      from f1 idx nr have idx1: "idx < analog_ch_count outc1"
        and nr1: "nr = first_analog_index outc1 + idx"
        by (simp_all add: analog_frame_def)
      show ?thesis
      proof (cases "send_size1 \<noteq> 0 \<and> remain1 = 0")
        case flush: True
        obtain r2 outc2 w2 where
          a: "dir_append_analog outc1 w (ab_samples (analog_buff outc1 ! idx))
                (ab_fill_size (analog_buff outc1 ! idx)) nr = (r2, outc2, w2)"
          by (metis prod_cases3)
        from dir_append_analog_step [OF a [unfolded nr1] _ ok1 idx1] pos flush
        have s2: "chunk_step w w2" "analog_ok outc2" "analog_frame outc1 outc2"
          "ab_alloc_size (analog_buff outc2 ! idx) = ab_alloc_size (analog_buff outc1 ! idx)"
          by simp_all
        show ?thesis
        proof (cases "r2 = SR_OK")
          case False
          with step(2) \<open>send_size \<noteq> 0\<close> c flush a have "y = (r2, outc2, w2)"
            by simp
          with s2 f1 show ?thesis
            by (auto simp: analog_frame_def)
        next
          case True
          define outc3 where "outc3 = outc2\<lparr>analog_buff := (analog_buff outc2)
                         [idx := (analog_buff outc2 ! idx)\<lparr>ab_fill_size := 0\<rparr>]\<rparr>"
          from True step(2) \<open>send_size \<noteq> 0\<close> c flush a
          have l: "loop outc3 w2 idx nr rdptr1 send_size1 = Some y"
            by (simp add: outc3_def)
          from s2(3) idx1 have idx2: "idx < analog_ch_count outc2"
            by (simp add: analog_frame_def)
          from analog_ok_nth [OF s2(2) idx2]
          have ok3: "analog_ok outc3"
            unfolding outc3_def by (intro analog_ok_update [OF s2(2)]) simp_all
          have f3: "analog_frame outc outc3"
            using f1 s2(3) by (simp add: outc3_def analog_frame_def)
          then have "idx < analog_ch_count outc3" "nr = first_analog_index outc3 + idx"
            using idx nr by (simp_all add: analog_frame_def)
          with step(1) [OF l] ok3
          have "chunk_step w2 (snd (snd y)) \<and> analog_ok (fst (snd y)) \<and>
              analog_frame outc3 (fst (snd y))"
            by simp
          with s2(1) f3 show ?thesis
            by (auto simp: analog_frame_def intro: chunk_step_trans)
        qed
      next
        case False
        with step(2) \<open>send_size \<noteq> 0\<close> c
        have "loop outc1 w idx nr rdptr1 send_size1 = Some y"
          by auto
        from step(1) [OF this] ok1 idx1 nr1 f1 show ?thesis
          by (auto simp: analog_frame_def)
      qed
    qed
  qed
qed

lemma analog_queue_loop_step:
  assumes "analog_queue_loop outc w idx (first_analog_index outc + idx) rdptr n = Some (ret, outc', w')"
    and "analog_ok outc" "idx < analog_ch_count outc"
  shows "chunk_step w w' \<and> analog_ok outc' \<and> analog_frame outc outc'"
  using analog_queue_loop_step_aux [OF assms(1)] assms(2,3) by simp

lemma analog_flush_all_step:
  assumes "analog_flush_all idx outc w = (ret, outc', w')" "analog_ok outc"
  shows "chunk_step w w' \<and> analog_ok outc' \<and> analog_frame outc outc'"
  using assms
proof (induction "analog_ch_count outc - idx" arbitrary: idx outc w rule: less_induct)
  case less
  show ?case
  proof (cases "idx < analog_ch_count outc")
    case False
    with less.prems show ?thesis
      by (simp add: analog_flush_all.simps [of idx])
  next
    case True
    let ?buff = "analog_buff outc ! idx"
    show ?thesis
    proof (cases "ab_fill_size ?buff = 0")
      case z: True
      with True less.prems(1) have "analog_flush_all (idx + 1) outc w = (ret, outc', w')"
        by (simp add: analog_flush_all.simps [of idx])
      moreover have "analog_ch_count outc - (idx + 1) < analog_ch_count outc - idx"
        using True by simp
      ultimately show ?thesis
        using less.hyps less.prems(2) by blast
    next
      case nz: False
      obtain ret1 outc1 w1 where
        da: "dir_append_analog outc w (ab_samples ?buff) (ab_fill_size ?buff)
               (first_analog_index outc + idx) = (ret1, outc1, w1)"
        by (cases "dir_append_analog outc w (ab_samples ?buff) (ab_fill_size ?buff)
               (first_analog_index outc + idx)")
      from nz have pos: "0 < ab_fill_size ?buff" by simp
      from dir_append_analog_step [OF da pos less.prems(2) True]
      have s1: "chunk_step w w1" "analog_ok outc1" "analog_frame outc outc1"
        and al: "ab_alloc_size (analog_buff outc1 ! idx) = ab_alloc_size ?buff"
        by simp_all
      show ?thesis
      proof (cases "ret1 = SR_OK")
        case False
        with True nz da less.prems(1) have "ret = ret1" "outc' = outc1" "w' = w1"
          by (simp_all add: analog_flush_all.simps [of idx])
        with s1 show ?thesis by simp
      next
        case ok: True
        define outc2 where "outc2 = outc1\<lparr>analog_buff := (analog_buff outc1)
                            [idx := (analog_buff outc1 ! idx)\<lparr>ab_fill_size := 0\<rparr>]\<rparr>"
        from analog_ok_nth [OF less.prems(2) True] al
        have "analog_ok outc2"
          unfolding outc2_def by (intro analog_ok_update [OF s1(2)]) simp_all
        moreover have f2: "analog_frame outc outc2"
          using s1(3) by (simp add: outc2_def)
        moreover from True nz da ok less.prems(1)
        have "analog_flush_all (idx + 1) outc2 w1 = (ret, outc', w')"
          by (simp add: analog_flush_all.simps [of idx] outc2_def)
        moreover have "analog_ch_count outc2 - (idx + 1) < analog_ch_count outc - idx"
          using True f2 by (simp add: analog_frame_def)
        ultimately have "chunk_step w1 w' \<and> analog_ok outc' \<and> analog_frame outc2 outc'"
          using less.hyps by blast
        with s1(1) f2 show ?thesis
          by (auto simp: analog_frame_def intro: chunk_step_trans)
      qed
    qed
  qed
qed

lemma dir_append_analog_queue_step:
  assumes "dir_append_analog_queue outc w analog flush = Some (ret, outc', w')"
    and "analog_ok outc"
  shows "chunk_step w w' \<and> analog_ok outc' \<and> analog_frame outc outc'"
proof (cases analog)
  case None
  with assms(1) have "analog_flush_all 0 outc w = (ret, outc', w')"
    by (simp add: dir_append_analog_queue_def split: if_splits bool.splits)
  from analog_flush_all_step [OF this assms(2)] show ?thesis .
next
  case (Some an)
  define idx where "idx = find_analog_idx 0 (analog_ch_count outc) (analog_index_map outc)
                            (ch_index (an_channels an ! 0))"
  have le: "idx \<le> analog_ch_count outc"
    using find_analog_idx_bounds [of 0 "analog_ch_count outc"] by (simp add: idx_def)
  obtain ok0 w0 where m: "g_try_malloc0 (an_num_samples an * sizeof_float) w = (ok0, w0)"
    by (cases "g_try_malloc0 (an_num_samples an * sizeof_float) w")
  from g_try_malloc0_D [OF m] have s0: "chunk_step w w0"
    by (simp add: chunk_step_def)
  show ?thesis
  proof (cases "length (an_channels an) \<noteq> 1 \<or> idx = analog_ch_count outc \<or> \<not> ok0 \<or>
                an_to_float_ret an \<noteq> SR_OK")
    case True
    with assms(1) Some m have "outc' = outc" "chunk_step w w'"
      using s0 by (auto simp: dir_append_analog_queue_def Let_def idx_def [symmetric]
          split: if_splits bool.splits)
    with assms(2) show ?thesis by simp
  next
    case False
    with le have lt: "idx < analog_ch_count outc" by simp
    let ?nr = "first_analog_index outc + idx"
    from False assms(1) Some m obtain ret1 outc1 w1 where
      l: "analog_queue_loop outc w0 idx ?nr (an_to_float_values an) (an_num_samples an) =
            Some (ret1, outc1, w1)"
      by (auto simp: dir_append_analog_queue_def Let_def idx_def [symmetric]
          split: option.splits bool.splits if_splits)
    from analog_queue_loop_step [OF l assms(2) lt]
    have s1: "chunk_step w0 w1" "analog_ok outc1" "analog_frame outc outc1"
      by simp_all
    then have fi: "first_analog_index outc1 = first_analog_index outc"
      and lt1: "idx < analog_ch_count outc1"
      using lt by (simp_all add: analog_frame_def)
    let ?buff = "analog_buff outc1 ! idx"
    show ?thesis
    proof (cases "ret1 = SR_OK \<and> flush \<and> ab_fill_size ?buff \<noteq> 0")
      case nf: False
      with False assms(1) Some m l have "outc' = outc1" "w' = w1"
        by (auto simp: dir_append_analog_queue_def Let_def idx_def [symmetric] split: if_splits bool.splits)
      with s0 s1 show ?thesis
        by (auto intro: chunk_step_trans)
    next
      case fl: True
      obtain ret2 outc2 w2 where
        da: "dir_append_analog outc1 w1 (ab_samples ?buff) (ab_fill_size ?buff)
               (first_analog_index outc1 + idx) = (ret2, outc2, w2)"
        by (cases "dir_append_analog outc1 w1 (ab_samples ?buff) (ab_fill_size ?buff)
               (first_analog_index outc1 + idx)")
      from fl have pos: "0 < ab_fill_size ?buff" by simp
      from dir_append_analog_step [OF da pos s1(2) lt1]
      have s2: "chunk_step w1 w2" "analog_ok outc2" "analog_frame outc1 outc2"
        and al: "ab_alloc_size (analog_buff outc2 ! idx) = ab_alloc_size ?buff"
        by simp_all
      define outc3 where "outc3 = outc2\<lparr>analog_buff := (analog_buff outc2)
                            [idx := (analog_buff outc2 ! idx)\<lparr>ab_fill_size := 0\<rparr>]\<rparr>"
      from analog_ok_nth [OF s1(2) lt1] al
      have ok3: "analog_ok outc3"
        unfolding outc3_def by (intro analog_ok_update [OF s2(2)]) simp_all
      from False fl assms(1) Some m l da
      have "w' = w2" "outc' = outc2 \<or> outc' = outc3"
        by (auto simp: dir_append_analog_queue_def Let_def idx_def [symmetric] fi outc3_def
            split: if_splits bool.splits)
      moreover have "chunk_step w w2"
        using s0 s1(1) s2(1) by (blast intro: chunk_step_trans)
      moreover have "analog_frame outc outc2" "analog_frame outc outc3"
        using s1(3) s2(3) by (simp_all add: analog_frame_def outc3_def)
      ultimately show ?thesis
        using s2(2) ok3 by auto
    qed
  qed
qed

lemma meta_samplerate_frame:
  "dir_created (meta_samplerate cfg outc) = dir_created outc \<and>
   filename (meta_samplerate cfg outc) = filename outc \<and>
   analog_ch_count (meta_samplerate cfg outc) = analog_ch_count outc \<and>
   analog_buff (meta_samplerate cfg outc) = analog_buff outc"
  by (induction cfg arbitrary: outc) simp_all

lemma analog_ok_meta_samplerate [simp]:
  "analog_ok (meta_samplerate cfg outc) = analog_ok outc"
  by (simp add: analog_ok_def meta_samplerate_frame)

lemma logic_frame_analog_ok:
  "logic_frame outc outc' \<Longrightarrow> analog_ok outc' = analog_ok outc"
  by (simp add: logic_frame_def analog_ok_def)

lemma ensure_dir_ready: "dir_created outc \<Longrightarrow> ensure_dir d outc w = (SR_OK, outc, w)"
  by (simp add: ensure_dir_def)

lemma receive_packet_ready_step:
  assumes "receive_packet d outc p w = Some (ret, outc', w')" "dir_created outc" "analog_ok outc"
  shows "chunk_step w w' \<and> dir_created outc' \<and> analog_ok outc'"
proof (cases p)
  case (SR_DF_META cfg)
  with assms show ?thesis
    by (auto simp: receive_packet_def meta_samplerate_frame)
next
  case (SR_DF_LOGIC logic)
  with assms(1,2)
  have "dir_append_queue outc w (lg_data logic) (lg_unitsize logic) (lg_length logic) False =
          Some (ret, outc', w')"
    by (simp add: receive_packet_def ensure_dir_ready)
  from dir_append_queue_step [OF this] assms(2,3) show ?thesis
    by (auto simp: logic_frame_def analog_ok_def)
next
  case (SR_DF_ANALOG analog)
  with assms(1,2)
  have "dir_append_analog_queue outc w (Some analog) False = Some (ret, outc', w')"
    by (simp add: receive_packet_def ensure_dir_ready)
  from dir_append_analog_queue_step [OF this assms(3)] assms(2) show ?thesis
    by (simp add: analog_frame_def)
next
  case SR_DF_END
  with assms(1,2) obtain ret1 outc1 w1 where
    q: "dir_append_queue outc w [] 0 0 True = Some (ret1, outc1, w1)"
    and r: "if ret1 \<noteq> SR_OK then (ret, outc', w') = (ret1, outc1, w1)
            else dir_append_analog_queue outc1 w1 None True = Some (ret, outc', w')"
    by (auto simp: receive_packet_def split: option.splits if_splits)
  from dir_append_queue_step [OF q] assms(2,3)
  have s1: "chunk_step w w1" "dir_created outc1" "analog_ok outc1"
    by (auto simp: logic_frame_def analog_ok_def)
  show ?thesis
  proof (cases "ret1 = SR_OK")
    case False
    with r s1 show ?thesis by simp
  next
    case True
    with r have "dir_append_analog_queue outc1 w1 None True = Some (ret, outc', w')"
      by simp
    from dir_append_analog_queue_step [OF this s1(3)] s1(1,2) show ?thesis
      by (auto simp: analog_frame_def intro: chunk_step_trans)
  qed
next
  case SR_DF_OTHER
  with assms show ?thesis
    by (simp add: receive_packet_def)
qed

lemma receive_Some:
  assumes "sdi out = Some d" "priv out = Some outc"
  shows "receive (Some out) p w =
           (case receive_packet d outc p w of
              None \<Rightarrow> None
            | Some (ret, outc1, w1) \<Rightarrow> Some (ret, Some (out\<lparr>priv := Some outc1\<rparr>), w1))"
  by (simp add: receive_def assms)

lemma session_Cons_D:
  assumes "session (Some out) w (p # ps) = Some (ret, o', w')"
    and "sdi out = Some d" "priv out = Some outc"
  obtains ret1 outc1 w1 where
    "receive_packet d outc p w = Some (ret1, outc1, w1)"
    "if ret1 \<noteq> SR_OK then (ret, o', w') = (ret1, Some (out\<lparr>priv := Some outc1\<rparr>), w1)
     else session (Some (out\<lparr>priv := Some outc1\<rparr>)) w1 ps = Some (ret, o', w')"
  using assms(1) unfolding session.simps receive_Some [OF assms(2,3)]
  by (auto split: option.splits if_splits)

lemma session_ready_step:
  assumes "session (Some out) w packets = Some (ret, o', w')"
    and "sdi out = Some d" "priv out = Some outc" "dir_created outc" "analog_ok outc"
  shows "chunk_step w w' \<and>
         (\<exists>out' outc'. o' = Some out' \<and> sdi out' = Some d \<and> priv out' = Some outc' \<and>
            dir_created outc' \<and> analog_ok outc')"
  using assms
proof (induction packets arbitrary: out outc w)
  case Nil
  then show ?case by auto
next
  case (Cons p ps)
  from Cons.prems(1-3) obtain ret1 outc1 w1 where
    r: "receive_packet d outc p w = Some (ret1, outc1, w1)"
    and c: "if ret1 \<noteq> SR_OK then (ret, o', w') = (ret1, Some (out\<lparr>priv := Some outc1\<rparr>), w1)
            else session (Some (out\<lparr>priv := Some outc1\<rparr>)) w1 ps = Some (ret, o', w')"
    by (rule session_Cons_D)
  from receive_packet_ready_step [OF r Cons.prems(4,5)]
  have s1: "chunk_step w w1" "dir_created outc1" "analog_ok outc1"
    by simp_all
  show ?case
  proof (cases "ret1 = SR_OK")
    case False
    with c s1 Cons.prems(2) show ?thesis by simp
  next
    case True
    with c have "session (Some (out\<lparr>priv := Some outc1\<rparr>)) w1 ps = Some (ret, o', w')"
      by simp
    from Cons.IH [OF this _ _ s1(2,3)] Cons.prems(2)
    have "chunk_step w1 w' \<and>
         (\<exists>out' outc'. o' = Some out' \<and> sdi out' = Some d \<and> priv out' = Some outc' \<and>
            dir_created outc' \<and> analog_ok outc')"
      by simp
    with s1(1) show ?thesis
      by (blast intro: chunk_step_trans)
  qed
qed

lemma analog_ok_dir_created [simp]:
  "analog_ok (outc\<lparr>dir_created := b\<rparr>) = analog_ok outc"
  by (simp add: analog_ok_def)

lemma receive_packet_fresh_other:
  assumes "\<not> is_sample_packet p" "\<not> dir_created outc"
  shows "\<exists>outc'. receive_packet d outc p w = Some (SR_OK, outc', w) \<and> \<not> dir_created outc' \<and>
           filename outc' = filename outc"
  using assms by (cases p) (simp_all add: receive_packet_def meta_samplerate_frame)

lemma receive_packet_fresh_sample:
  assumes "receive_packet d outc p w = Some (ret, outc', w')"
    and "is_sample_packet p" "\<not> dir_created outc"
  shows "\<exists>ok evs w1. trace w1 = trace w @ Ev_mkdir (filename outc) ok # evs \<and>
           list_all setup_io evs \<and> chunk_step w1 w' \<and>
           (dir_created outc' \<longrightarrow> analog_ok outc') \<and> (ret = SR_OK \<longrightarrow> dir_created outc')"
proof -
  obtain ret0 outc0 w0 where dc: "dir_create d outc w = (ret0, outc0, w0)"
    by (cases "dir_create d outc w")
  from dir_create_trace [OF dc] obtain ok evs where
    t: "trace w0 = trace w @ Ev_mkdir (filename outc) ok # evs" "list_all setup_io evs"
    by blast
  from dir_create_dir_created [OF dc] assms(3) have nc: "\<not> dir_created outc0"
    by simp
  show ?thesis
  proof (cases "ret0 = SR_OK")
    case False
    with dc assms(3) have "ensure_dir d outc w = (ret0, outc0, w0)"
      by (simp add: ensure_dir_def)
    with False assms(1,2) have "ret = ret0" "outc' = outc0" "w' = w0"
      by (cases p; simp add: receive_packet_def)+
    with t nc False have "trace w0 = trace w @ Ev_mkdir (filename outc) ok # evs \<and>
           list_all setup_io evs \<and> chunk_step w0 w' \<and>
           (dir_created outc' \<longrightarrow> analog_ok outc') \<and> (ret = SR_OK \<longrightarrow> dir_created outc')"
      by simp
    then show ?thesis by (intro exI)
  next
    case True
    define outc1 where "outc1 = outc0\<lparr>dir_created := True\<rparr>"
    from True dc assms(3) have e: "ensure_dir d outc w = (SR_OK, outc1, w0)"
      by (simp add: ensure_dir_def outc1_def)
    from dir_create_analog_ok dc True have ok1: "analog_ok outc1" "dir_created outc1"
      by (simp_all add: outc1_def)
    have e': "ensure_dir d outc1 w0 = (SR_OK, outc1, w0)"
      using ok1(2) by (rule ensure_dir_ready)
    from assms(1,2) have "receive_packet d outc1 p w0 = Some (ret, outc', w')"
      by (cases p; simp add: receive_packet_def e e')
    from receive_packet_ready_step [OF this ok1(2,1)] t
    have "trace w0 = trace w @ Ev_mkdir (filename outc) ok # evs \<and>
           list_all setup_io evs \<and> chunk_step w0 w' \<and>
           (dir_created outc' \<longrightarrow> analog_ok outc') \<and> (ret = SR_OK \<longrightarrow> dir_created outc')"
      by simp
    then show ?thesis by (intro exI)
  qed
qed

lemma session_fresh_step:
  assumes "session (Some out) w packets = Some (ret, o', w')"
    and "sdi out = Some d" "priv out = Some outc" "\<not> dir_created outc"
  shows "(if list_ex is_sample_packet packets
          then \<exists>ok evs w1. trace w1 = trace w @ Ev_mkdir (filename outc) ok # evs \<and>
                 list_all setup_io evs \<and> chunk_step w1 w'
          else ret = SR_OK \<and> w' = w) \<and>
         (\<exists>out' outc'. o' = Some out' \<and> sdi out' = Some d \<and> priv out' = Some outc' \<and>
            (dir_created outc' \<longrightarrow> analog_ok outc') \<and>
            (list_ex is_sample_packet packets \<or> \<not> dir_created outc'))"
  using assms
proof (induction packets arbitrary: out outc w)
  case Nil
  then show ?case by auto
next
  case (Cons p ps)
  from Cons.prems(1-3) obtain ret1 outc1 w1 where
    r: "receive_packet d outc p w = Some (ret1, outc1, w1)"
    and c: "if ret1 \<noteq> SR_OK then (ret, o', w') = (ret1, Some (out\<lparr>priv := Some outc1\<rparr>), w1)
            else session (Some (out\<lparr>priv := Some outc1\<rparr>)) w1 ps = Some (ret, o', w')"
    by (rule session_Cons_D)
  show ?case
  proof (cases "is_sample_packet p")
    case False
    from receive_packet_fresh_other [OF False Cons.prems(4), of d w] r
    have 1: "ret1 = SR_OK" "w1 = w" "\<not> dir_created outc1" "filename outc1 = filename outc"
      by auto
    with c have "session (Some (out\<lparr>priv := Some outc1\<rparr>)) w ps = Some (ret, o', w')"
      by simp
    from Cons.IH [OF this _ _ 1(3)] Cons.prems(2) False 1(4) show ?thesis
      by (auto split: if_splits)
  next
    case True
    from receive_packet_fresh_sample [OF r True Cons.prems(4)] obtain ok evs w0 where
      t: "trace w0 = trace w @ Ev_mkdir (filename outc) ok # evs" "list_all setup_io evs"
        "chunk_step w0 w1" "dir_created outc1 \<longrightarrow> analog_ok outc1"
        "ret1 = SR_OK \<longrightarrow> dir_created outc1"
      by blast
    have "chunk_step w1 w' \<and>
         (\<exists>out' outc'. o' = Some out' \<and> sdi out' = Some d \<and> priv out' = Some outc' \<and>
            (dir_created outc' \<longrightarrow> analog_ok outc'))"
    proof (cases "ret1 = SR_OK")
      case False
      with c t(4) Cons.prems(2) show ?thesis by simp
    next
      case ok: True
      with c have s: "session (Some (out\<lparr>priv := Some outc1\<rparr>)) w1 ps = Some (ret, o', w')"
        by simp
      from ok t have "dir_created outc1" "analog_ok outc1" by simp_all
      from session_ready_step [OF s _ _ this] Cons.prems(2) show ?thesis
        by auto
    qed
    moreover from this t(3) have "chunk_step w0 w'"
      by (blast intro: chunk_step_trans)
    with t(1,2) have "\<exists>ok evs w1. trace w1 = trace w @ Ev_mkdir (filename outc) ok # evs \<and>
                 list_all setup_io evs \<and> chunk_step w1 w'"
      by blast
    ultimately show ?thesis
      using True by auto
  qed
qed

lemma session_no_samples:
  assumes "sdi out = Some d" "priv out = Some outc" "\<not> dir_created outc"
    and "\<not> list_ex is_sample_packet packets"
  shows "\<exists>out' outc'. session (Some out) w packets = Some (SR_OK, Some out', w) \<and>
           sdi out' = Some d \<and> priv out' = Some outc' \<and> \<not> dir_created outc'"
  using assms
proof (induction packets arbitrary: out outc)
  case Nil
  then show ?case by auto
next
  case (Cons p ps)
  from Cons.prems(4) have np: "\<not> is_sample_packet p" and nps: "\<not> list_ex is_sample_packet ps"
    by simp_all
  from receive_packet_fresh_other [OF np Cons.prems(3), of d w] obtain outc1 where
    r: "receive_packet d outc p w = Some (SR_OK, outc1, w)" and nc: "\<not> dir_created outc1"
    by blast
  have "session (Some out) w (p # ps) = session (Some (out\<lparr>priv := Some outc1\<rparr>)) w ps"
    by (simp add: receive_Some [OF Cons.prems(1,2)] r)
  moreover from Cons.IH [OF _ _ nc nps, of "out\<lparr>priv := Some outc1\<rparr>"] Cons.prems(1)
  have "\<exists>out' outc'. session (Some (out\<lparr>priv := Some outc1\<rparr>)) w ps = Some (SR_OK, Some out', w) \<and>
           sdi out' = Some d \<and> priv out' = Some outc' \<and> \<not> dir_created outc'"
    by simp
  ultimately show ?case by simp
qed

lemma chunk_writes_no_empty: "chunk_writes evs \<Longrightarrow> list_all (\<lambda>ev. \<not> empty_chunk_write ev) evs"
  by (induction evs rule: chunk_writes.induct) (auto elim: is_chunk_file.elims)

lemma chunk_writes_no_mkdir: "chunk_writes evs \<Longrightarrow> filter is_mkdir evs = []"
  by (induction evs rule: chunk_writes.induct) simp_all

lemma setup_io_no_mkdir: "list_all setup_io evs \<Longrightarrow> filter is_mkdir evs = []"
  by (induction evs) (auto elim: setup_io.elims)

lemma setup_io_no_empty: "list_all setup_io evs \<Longrightarrow> list_all (\<lambda>ev. \<not> empty_chunk_write ev) evs"
  by (induction evs) (auto elim: setup_io.elims)

lemma init_fresh:
  assumes "init out w = (SR_OK, out', w')"
  shows "\<exists>outc. priv out' = Some outc \<and> \<not> dir_created outc \<and> sdi out' = sdi out \<and> w' = w"
  using assms by (auto simp: init_def split: option.splits if_splits)

lemma init_ex_fresh9:
  "init \<lparr>o_filename = Some ''capture'', sdi = Some ex_dev9, priv = None\<rparr> ex_world =
     (SR_OK, ex_fresh9, ex_world)"
  by (simp add: init_def ex_fresh9_def ex_context_def)

lemma ex_fresh9_facts:
  "sdi ex_fresh9 = Some ex_dev9" "priv ex_fresh9 = Some ex_context" "\<not> dir_created ex_context"
  "filename ex_context = ''capture''"
  by (simp_all add: ex_fresh9_def ex_context_def)

lemma session_fresh9_first:
  "\<exists>w1. io_ok w1 \<and>
     session (Some ex_fresh9) ex_world (logic_packet 2 bs # rest) =
       session (Some ex_out9) w1 (logic_packet 2 bs # rest)"
proof -
  from dir_create_io_ok [OF io_ok_ex_world] obtain outc' w1 where
    ok: "dir_create ex_dev9 ex_context ex_world = (SR_OK, outc', w1)" and io: "io_ok w1"
    by blast
  from ensure_dir_ex9 ok have e: "ensure_dir ex_dev9 ex_context ex_world = (SR_OK, ex_ready9, w1)"
    by (simp add: ensure_dir_def ex_fresh9_facts)
  have e': "ensure_dir ex_dev9 ex_ready9 w1 = (SR_OK, ex_ready9, w1)"
    by (rule ensure_dir_ready) (simp add: ex_ready9_facts)
  have "receive_packet ex_dev9 ex_context (logic_packet 2 bs) ex_world =
        receive_packet ex_dev9 ex_ready9 (logic_packet 2 bs) w1"
    by (simp add: receive_packet_def logic_packet_def e e')
  moreover have "\<And>x. ex_fresh9\<lparr>priv := x\<rparr> = ex_out9\<lparr>priv := x\<rparr>"
    by (simp add: ex_fresh9_def ex_out9_def)
  ultimately have "session (Some ex_fresh9) ex_world (logic_packet 2 bs # rest) =
       session (Some ex_out9) w1 (logic_packet 2 bs # rest)"
    by (simp add: receive_Some [OF ex_fresh9_facts(1,2)] receive_Some [OF ex_out9_facts]
        split: option.splits)
  with io show ?thesis by blast
qed

lemma session_fresh9_ex:
  "\<exists>out' w'. session (Some ex_fresh9) ex_world
      (map (logic_packet 2) (bs # blocks) @ [SR_DF_END]) = Some (SR_OK, Some out', w')"
proof -
  from session_fresh9_first [of bs "map (logic_packet 2) blocks @ [SR_DF_END]"] obtain w1 where
    io: "io_ok w1"
    and s: "session (Some ex_fresh9) ex_world (map (logic_packet 2) (bs # blocks) @ [SR_DF_END]) =
            session (Some ex_out9) w1 (map (logic_packet 2) (bs # blocks) @ [SR_DF_END])"
    by auto
  from session_logic_stream
    [OF ex_out9_facts ex_ready9_facts(6) logic_ok_ex_ready9 io ex_ready9_facts(1) [symmetric],
      of "bs # blocks"]
  show ?thesis
    unfolding s by blast
qed

text \<open>
  C9: the directory is created lazily. Take a session that starts in a state in
  which the directory has not been created. If no packet of the session is a logic or an
  analog packet, the session returns \<^verbatim>\<open>SR_OK\<close> and leaves the world as it was: it makes
  no file system call (no directory, no file, no flush) and logs nothing, and the
  directory is still not created. This covers every prefix of a session up to its first
  sample packet. If the session has a logic or an analog packet and its calls return, its
  file system calls start with the \<^verbatim>\<open>g_mkdir\<close> of \<^verbatim>\<open>dir_create\<close> (its first file system
  call) and have no other \<^verbatim>\<open>g_mkdir\<close>: \<^verbatim>\<open>dir_create\<close> has run once.
\<close>

theorem session_lazy_directory:
  assumes "sdi out = Some d" "priv out = Some outc" "\<not> dir_created outc"
  shows "(\<not> list_ex is_sample_packet packets \<longrightarrow>
            (\<exists>out' outc'. session (Some out) w packets = Some (SR_OK, Some out', w) \<and>
               priv out' = Some outc' \<and> \<not> dir_created outc')) \<and>
         (list_ex is_sample_packet packets \<and>
          session (Some out) w packets = Some (ret, o', w') \<longrightarrow>
            (\<exists>ok evs. trace w' = trace w @ Ev_mkdir (filename outc) ok # evs \<and>
               filter is_mkdir evs = []))"
proof (intro conjI impI)
  assume "\<not> list_ex is_sample_packet packets"
  from session_no_samples [OF assms this, of w]
  show "\<exists>out' outc'. session (Some out) w packets = Some (SR_OK, Some out', w) \<and>
               priv out' = Some outc' \<and> \<not> dir_created outc'"
    by blast
next
  assume a: "list_ex is_sample_packet packets \<and>
          session (Some out) w packets = Some (ret, o', w')"
  with session_fresh_step [OF _ assms, of w packets ret o' w'] obtain ok evs chunks where
    c: "trace w' = trace w @ Ev_mkdir (filename outc) ok # evs @ chunks"
      "list_all setup_io evs" "chunk_writes chunks"
    by (auto simp: chunk_step_def)
  from c(2,3) have "filter is_mkdir (evs @ chunks) = []"
    by (simp add: setup_io_no_mkdir chunk_writes_no_mkdir)
  with c(1) have "trace w' = trace w @ Ev_mkdir (filename outc) ok # (evs @ chunks) \<and>
               filter is_mkdir (evs @ chunks) = []"
    by simp
  then show "\<exists>ok evs. trace w' = trace w @ Ev_mkdir (filename outc) ok # evs \<and>
               filter is_mkdir evs = []"
    by (intro exI)
qed

theorem session_lazy_directory_witness:
  "(\<exists>out' outc'.
      session (Some ex_fresh9) ex_world
        [SR_DF_META [\<lparr>cfg_key = SR_CONF_SAMPLERATE, cfg_data = 1000\<rparr>], SR_DF_OTHER, SR_DF_END] =
        Some (SR_OK, Some out', ex_world) \<and>
      priv out' = Some outc' \<and> \<not> dir_created outc') \<and>
   (\<exists>out' w' ok evs.
      session (Some ex_fresh9) ex_world
        (map (logic_packet 2) [[1, 2, 3, 4], [5, 6]] @ [SR_DF_END]) = Some (SR_OK, Some out', w') \<and>
      trace w' = Ev_mkdir ''capture'' ok # evs \<and> filter is_mkdir evs = [])"
proof (rule conjI)
  note t = session_lazy_directory [OF ex_fresh9_facts(1,2,3)]
  have "\<not> list_ex is_sample_packet
          [SR_DF_META [\<lparr>cfg_key = SR_CONF_SAMPLERATE, cfg_data = 1000\<rparr>], SR_DF_OTHER, SR_DF_END]"
    by simp
  from t [THEN conjunct1, THEN mp, OF this]
  show "\<exists>out' outc'.
      session (Some ex_fresh9) ex_world
        [SR_DF_META [\<lparr>cfg_key = SR_CONF_SAMPLERATE, cfg_data = 1000\<rparr>], SR_DF_OTHER, SR_DF_END] =
        Some (SR_OK, Some out', ex_world) \<and>
      priv out' = Some outc' \<and> \<not> dir_created outc'" .
  from session_fresh9_ex [of "[1, 2, 3, 4]" "[[5, 6]]"] obtain out' w' where
    s: "session (Some ex_fresh9) ex_world
          (map (logic_packet 2) [[1, 2, 3, 4], [5, 6]] @ [SR_DF_END]) = Some (SR_OK, Some out', w')"
    by blast
  have "list_ex is_sample_packet (map (logic_packet 2) [[1, 2, 3, 4], [5, 6]] @ [SR_DF_END])"
    by (simp add: logic_packet_def)
  with s t [THEN conjunct2, THEN mp, of "map (logic_packet 2) [[1, 2, 3, 4], [5, 6]] @ [SR_DF_END]"
      ex_world SR_OK "Some out'" w']
  have "\<exists>ok evs. trace w' = trace ex_world @ Ev_mkdir (filename ex_context) ok # evs \<and>
               filter is_mkdir evs = []"
    by blast
  with s show "\<exists>out' w' ok evs.
      session (Some ex_fresh9) ex_world
        (map (logic_packet 2) [[1, 2, 3, 4], [5, 6]] @ [SR_DF_END]) = Some (SR_OK, Some out', w') \<and>
      trace w' = Ev_mkdir ''capture'' ok # evs \<and> filter is_mkdir evs = []"
    by (auto simp: ex_world_def ex_fresh9_facts)
qed

lemma ex_out_ready_facts:
  "sdi ex_out_ready = Some ex_dev" "priv ex_out_ready = Some ex_ready"
  "dir_created ex_ready" "analog_ok ex_ready"
  by (simp_all add: ex_out_ready_def ex_ready_def analog_ok_def fresh_analog_buffer_def
      CHUNK_SIZE_def sizeof_float_def)

lemma ex_ready_fields:
  "analog_ch_count ex_ready = 2" "analog_index_map ex_ready = [3, 5]"
  "first_analog_index ex_ready = 4"
  "analog_buff ex_ready = [fresh_analog_buffer, fresh_analog_buffer]"
  "logic_buff ex_ready = fresh_logic_buffer 3"
  by (simp_all add: ex_ready_def)

lemma ex_two_floats_fields:
  "analog_ch_count ex_two_floats = 2" "first_analog_index ex_two_floats = 4"
  "logic_buff ex_two_floats = fresh_logic_buffer 3" "dir_created ex_two_floats"
  "analog_buff ex_two_floats =
     [fresh_analog_buffer\<lparr>ab_fill_size := 2, ab_samples := memcpy (\<lambda>_. 0) 0 [1, 2] 2\<rparr>,
      fresh_analog_buffer]"
  by (simp_all add: ex_two_floats_def ex_ready_def)

lemma ex_two_floats_reached:
  "dir_append_analog_queue ex_ready ex_world (Some (ex_analog_packet [analog_ch 3])) False =
     Some (SR_OK, ex_two_floats, ex_world)"
proof -
  have idx: "find_analog_idx 0 2 [3, 5] 3 = 0"
    by (rule find_analog_idx_stop) simp
  have m: "g_try_malloc0 (2 * sizeof_float) ex_world = (True, ex_world)"
    by (simp add: g_try_malloc0_def next_outcome_def ex_world_def sizeof_float_def)
  have c: "analog_copy ex_ready 0 [1, 2] 2 = (ex_two_floats, [], 0, 1048574)"
    by (simp add: analog_copy_def ex_ready_fields size_sub_def Let_def fresh_analog_buffer_def
        CHUNK_SIZE_def sizeof_float_def ex_two_floats_def)
  have l: "analog_queue_loop ex_ready ex_world 0 4 [1, 2] 2 = Some (SR_OK, ex_two_floats, ex_world)"
    by (subst analog_queue_loop.simps) (simp add: c)
  show ?thesis
    by (simp add: dir_append_analog_queue_def ex_analog_packet_def analog_ch_def Let_def
        ex_ready_fields idx m l)
qed

lemma ex_two_floats_end:
  "\<exists>outc'. receive_packet ex_dev ex_two_floats SR_DF_END ex_world =
     Some (SR_OK, outc',
           ex_world\<lparr>trace := [Ev_fopen (File_analog 4 1) True,
                               Ev_fwrite (File_analog 4 1) (Floats [1, 2]) True]\<rparr>)"
proof -
  let ?w = "ex_world\<lparr>trace := [Ev_fopen (File_analog 4 1) True,
                               Ev_fwrite (File_analog 4 1) (Floats [1, 2]) True]\<rparr>"
  let ?b = "fresh_analog_buffer\<lparr>ab_fill_size := 2, ab_samples := memcpy (\<lambda>_. 0) 0 [1, 2] 2\<rparr>"
  define outc1 where "outc1 = ex_two_floats\<lparr>analog_buff :=
      [?b\<lparr>ab_next_chunk_num := 2\<rparr>, fresh_analog_buffer]\<rparr>"
  define outc2 where "outc2 = outc1\<lparr>analog_buff :=
      [?b\<lparr>ab_next_chunk_num := 2, ab_fill_size := 0\<rparr>, fresh_analog_buffer]\<rparr>"
  have q: "dir_append_queue ex_two_floats ex_world [] 0 0 True = Some (SR_OK, ex_two_floats, ex_world)"
    by (simp add: dir_append_queue_def ex_two_floats_fields fresh_logic_buffer_def)
  have vals: "map (memcpy (\<lambda>_. 0) 0 [1, 2 :: cfloat] 2) [0..<2] = [1, 2]"
    by (simp add: memcpy_def upt_rec)
  have o: "g_fopen (File_analog 4 1) ex_world =
             (True, ex_world\<lparr>trace := [Ev_fopen (File_analog 4 1) True]\<rparr>)"
    by (simp add: g_fopen_def next_outcome_def emit_def ex_world_def)
  have wr: "fwrite1 (File_analog 4 1) (Floats [1, 2])
              (ex_world\<lparr>trace := [Ev_fopen (File_analog 4 1) True]\<rparr>) = (True, ?w)"
    by (simp add: fwrite1_def next_outcome_def emit_def ex_world_def sizeof_float_def)
  have da: "dir_append_analog ex_two_floats ex_world (memcpy (\<lambda>_. 0) 0 [1, 2] 2) 2 4 =
              (SR_OK, outc1, ?w)"
    by (simp add: dir_append_analog_def ex_two_floats_fields size_sub_def Let_def vals o wr
        outc1_def fresh_analog_buffer_def)
  have cnt: "analog_ch_count outc2 = 2" "analog_buff outc2 ! Suc 0 = fresh_analog_buffer"
    by (simp_all add: outc2_def outc1_def ex_two_floats_fields)
  have f2: "analog_flush_all 2 outc2 ?w = (SR_OK, outc2, ?w)"
    by (subst analog_flush_all.simps) (simp add: cnt)
  have f1: "analog_flush_all 1 outc2 ?w = (SR_OK, outc2, ?w)"
    using f2
    by (subst analog_flush_all.simps) (simp add: cnt Let_def fresh_analog_buffer_def numeral_2_eq_2)
  have o2: "outc1\<lparr>analog_buff := (analog_buff outc1)
              [0 := (analog_buff outc1 ! 0)\<lparr>ab_fill_size := 0\<rparr>]\<rparr> = outc2"
    by (simp add: outc2_def outc1_def)
  have f0: "analog_flush_all 0 ex_two_floats ex_world = (SR_OK, outc2, ?w)"
    using f1 by (subst analog_flush_all.simps) (simp add: ex_two_floats_fields da Let_def o2)
  have "receive_packet ex_dev ex_two_floats SR_DF_END ex_world = Some (SR_OK, outc2, ?w)"
    by (simp add: receive_packet_def q dir_append_analog_queue_def f0 ex_two_floats_fields)
  then show ?thesis by (intro exI)
qed

lemma session_analog_ex:
  "\<exists>out'. session (Some ex_out_ready) ex_world
      [SR_DF_ANALOG (ex_analog_packet [analog_ch 3]), SR_DF_END] =
     Some (SR_OK, Some out',
           ex_world\<lparr>trace := [Ev_fopen (File_analog 4 1) True,
                               Ev_fwrite (File_analog 4 1) (Floats [1, 2]) True]\<rparr>)"
proof -
  have r1: "receive_packet ex_dev ex_ready (SR_DF_ANALOG (ex_analog_packet [analog_ch 3])) ex_world =
          Some (SR_OK, ex_two_floats, ex_world)"
    by (simp add: receive_packet_def ensure_dir_ready ex_out_ready_facts ex_two_floats_reached)
  from ex_two_floats_end obtain outc' where
    r2: "receive_packet ex_dev ex_two_floats SR_DF_END ex_world =
     Some (SR_OK, outc',
           ex_world\<lparr>trace := [Ev_fopen (File_analog 4 1) True,
                               Ev_fwrite (File_analog 4 1) (Floats [1, 2]) True]\<rparr>)"
    by blast
  have "sdi (ex_out_ready\<lparr>priv := Some ex_two_floats\<rparr>) = Some ex_dev"
    "priv (ex_out_ready\<lparr>priv := Some ex_two_floats\<rparr>) = Some ex_two_floats"
    by (simp_all add: ex_out_ready_def)
  note r = receive_Some [OF ex_out_ready_facts(1,2)] receive_Some [OF this]
  show ?thesis
    by (simp add: r r1 r2)
qed

text \<open>
  C6: no write of zero bytes to a chunk file is ever performed. Take a session that
  starts in a state in which the directory has not been created (the state that
  \<^verbatim>\<open>init\<close> leaves), or has been created and has the analog buffers as
  \<^verbatim>\<open>dir_create\<close> leaves them and the queues keep them, and take any packets and any
  outcomes of the library calls. If the calls return, the file system calls of the session
  are those of \<^verbatim>\<open>dir_create\<close> followed by chunk writes: every chunk file that is opened
  by the logic queue, the analog queue or the end of the stream is written at once with at
  least one byte, so no event is a write of no bytes to a chunk file. The state that the
  session reaches satisfies the condition on the start state again.
\<close>

theorem session_no_empty_chunk_write:
  assumes "sdi out = Some d" "priv out = Some outc" "dir_created outc \<longrightarrow> analog_ok outc"
    and "session (Some out) w packets = Some (ret, o', w')"
  shows "\<exists>dir_evs chunk_evs.
           trace w' = trace w @ dir_evs @ chunk_evs \<and>
           list_all (\<lambda>ev. is_mkdir ev \<or> setup_io ev) dir_evs \<and>
           chunk_writes chunk_evs \<and>
           list_all (\<lambda>ev. \<not> empty_chunk_write ev) (dir_evs @ chunk_evs) \<and>
           (\<exists>out' outc'. o' = Some out' \<and> sdi out' = Some d \<and> priv out' = Some outc' \<and>
              (dir_created outc' \<longrightarrow> analog_ok outc'))"
proof (cases "dir_created outc")
  case True
  with assms(3) have "analog_ok outc" by simp
  from session_ready_step [OF assms(4,1,2) True this] obtain chunk_evs where
    c: "trace w' = trace w @ chunk_evs" "chunk_writes chunk_evs"
    and o: "\<exists>out' outc'. o' = Some out' \<and> sdi out' = Some d \<and> priv out' = Some outc' \<and>
              (dir_created outc' \<longrightarrow> analog_ok outc')"
    by (auto simp: chunk_step_def)
  from c chunk_writes_no_empty [OF c(2)] o
  have "trace w' = trace w @ [] @ chunk_evs \<and>
           list_all (\<lambda>ev. is_mkdir ev \<or> setup_io ev) [] \<and>
           chunk_writes chunk_evs \<and>
           list_all (\<lambda>ev. \<not> empty_chunk_write ev) ([] @ chunk_evs) \<and>
           (\<exists>out' outc'. o' = Some out' \<and> sdi out' = Some d \<and> priv out' = Some outc' \<and>
              (dir_created outc' \<longrightarrow> analog_ok outc'))"
    by simp
  then show ?thesis by (intro exI)
next
  case False
  from session_fresh_step [OF assms(4,1,2) False]
  have o: "\<exists>out' outc'. o' = Some out' \<and> sdi out' = Some d \<and> priv out' = Some outc' \<and>
              (dir_created outc' \<longrightarrow> analog_ok outc')"
    and t: "if list_ex is_sample_packet packets
          then \<exists>ok evs w1. trace w1 = trace w @ Ev_mkdir (filename outc) ok # evs \<and>
                 list_all setup_io evs \<and> chunk_step w1 w'
          else ret = SR_OK \<and> w' = w"
    by auto
  show ?thesis
  proof (cases "list_ex is_sample_packet packets")
    case False
    with t o
    have "trace w' = trace w @ [] @ [] \<and>
           list_all (\<lambda>ev. is_mkdir ev \<or> setup_io ev) [] \<and>
           chunk_writes [] \<and>
           list_all (\<lambda>ev. \<not> empty_chunk_write ev) ([] @ []) \<and>
           (\<exists>out' outc'. o' = Some out' \<and> sdi out' = Some d \<and> priv out' = Some outc' \<and>
              (dir_created outc' \<longrightarrow> analog_ok outc'))"
      by simp
    then show ?thesis by (intro exI)
  next
    case True
    with t obtain ok evs chunk_evs where
      c: "trace w' = trace w @ (Ev_mkdir (filename outc) ok # evs) @ chunk_evs"
        "list_all setup_io evs" "chunk_writes chunk_evs"
      by (auto simp: chunk_step_def)
    from c(2) have "list_all (\<lambda>ev. is_mkdir ev \<or> setup_io ev) evs"
      by (simp add: list_all_iff)
    with c setup_io_no_empty [OF c(2)] chunk_writes_no_empty [OF c(3)] o
    have "trace w' = trace w @ (Ev_mkdir (filename outc) ok # evs) @ chunk_evs \<and>
           list_all (\<lambda>ev. is_mkdir ev \<or> setup_io ev) (Ev_mkdir (filename outc) ok # evs) \<and>
           chunk_writes chunk_evs \<and>
           list_all (\<lambda>ev. \<not> empty_chunk_write ev) ((Ev_mkdir (filename outc) ok # evs) @ chunk_evs) \<and>
           (\<exists>out' outc'. o' = Some out' \<and> sdi out' = Some d \<and> priv out' = Some outc' \<and>
              (dir_created outc' \<longrightarrow> analog_ok outc'))"
      by simp
    then show ?thesis by (intro exI)
  qed
qed

theorem session_no_empty_chunk_write_witness:
  "(\<exists>out' w' dir_evs chunk_evs.
      session (Some ex_fresh9) ex_world
        (map (logic_packet 2) [[1, 2, 3, 4], [5, 6]] @ [SR_DF_END]) = Some (SR_OK, Some out', w') \<and>
      trace w' = dir_evs @ chunk_evs \<and>
      list_all (\<lambda>ev. is_mkdir ev \<or> setup_io ev) dir_evs \<and>
      chunk_writes chunk_evs \<and>
      list_all (\<lambda>ev. \<not> empty_chunk_write ev) (dir_evs @ chunk_evs)) \<and>
   (\<exists>out' w' dir_evs chunk_evs.
      session (Some ex_out_ready) ex_world
        [SR_DF_ANALOG (ex_analog_packet [analog_ch 3]), SR_DF_END] = Some (SR_OK, Some out', w') \<and>
      trace w' = [Ev_fopen (File_analog 4 1) True,
                  Ev_fwrite (File_analog 4 1) (Floats [1, 2]) True] \<and>
      trace w' = dir_evs @ chunk_evs \<and>
      list_all (\<lambda>ev. is_mkdir ev \<or> setup_io ev) dir_evs \<and>
      chunk_writes chunk_evs \<and>
      list_all (\<lambda>ev. \<not> empty_chunk_write ev) (dir_evs @ chunk_evs))"
proof (rule conjI)
  from session_fresh9_ex [of "[1, 2, 3, 4]" "[[5, 6]]"] obtain out' w' where
    s: "session (Some ex_fresh9) ex_world
          (map (logic_packet 2) [[1, 2, 3, 4], [5, 6]] @ [SR_DF_END]) = Some (SR_OK, Some out', w')"
    by blast
  have h: "dir_created ex_context \<longrightarrow> analog_ok ex_context"
    by (simp add: ex_fresh9_facts)
  from session_no_empty_chunk_write [OF ex_fresh9_facts(1,2) h s] s
  show "\<exists>out' w' dir_evs chunk_evs.
      session (Some ex_fresh9) ex_world
        (map (logic_packet 2) [[1, 2, 3, 4], [5, 6]] @ [SR_DF_END]) = Some (SR_OK, Some out', w') \<and>
      trace w' = dir_evs @ chunk_evs \<and>
      list_all (\<lambda>ev. is_mkdir ev \<or> setup_io ev) dir_evs \<and>
      chunk_writes chunk_evs \<and>
      list_all (\<lambda>ev. \<not> empty_chunk_write ev) (dir_evs @ chunk_evs)"
    by (auto simp: ex_world_def)
next
  let ?w = "ex_world\<lparr>trace := [Ev_fopen (File_analog 4 1) True,
                               Ev_fwrite (File_analog 4 1) (Floats [1, 2]) True]\<rparr>"
  from session_analog_ex obtain out' where
    s: "session (Some ex_out_ready) ex_world
          [SR_DF_ANALOG (ex_analog_packet [analog_ch 3]), SR_DF_END] = Some (SR_OK, Some out', ?w)"
    by blast
  have h: "dir_created ex_ready \<longrightarrow> analog_ok ex_ready"
    by (simp add: ex_out_ready_facts)
  from session_no_empty_chunk_write [OF ex_out_ready_facts(1,2) h s] obtain dir_evs chunk_evs where
    "trace ?w = trace ex_world @ dir_evs @ chunk_evs"
    "list_all (\<lambda>ev. is_mkdir ev \<or> setup_io ev) dir_evs" "chunk_writes chunk_evs"
    "list_all (\<lambda>ev. \<not> empty_chunk_write ev) (dir_evs @ chunk_evs)"
    by blast
  with s have "session (Some ex_out_ready) ex_world
        [SR_DF_ANALOG (ex_analog_packet [analog_ch 3]), SR_DF_END] = Some (SR_OK, Some out', ?w) \<and>
      trace ?w = [Ev_fopen (File_analog 4 1) True,
                  Ev_fwrite (File_analog 4 1) (Floats [1, 2]) True] \<and>
      trace ?w = dir_evs @ chunk_evs \<and>
      list_all (\<lambda>ev. is_mkdir ev \<or> setup_io ev) dir_evs \<and>
      chunk_writes chunk_evs \<and>
      list_all (\<lambda>ev. \<not> empty_chunk_write ev) (dir_evs @ chunk_evs)"
    by (simp add: ex_world_def)
  then show "\<exists>out' w' dir_evs chunk_evs.
      session (Some ex_out_ready) ex_world
        [SR_DF_ANALOG (ex_analog_packet [analog_ch 3]), SR_DF_END] = Some (SR_OK, Some out', w') \<and>
      trace w' = [Ev_fopen (File_analog 4 1) True,
                  Ev_fwrite (File_analog 4 1) (Floats [1, 2]) True] \<and>
      trace w' = dir_evs @ chunk_evs \<and>
      list_all (\<lambda>ev. is_mkdir ev \<or> setup_io ev) dir_evs \<and>
      chunk_writes chunk_evs \<and>
      list_all (\<lambda>ev. \<not> empty_chunk_write ev) (dir_evs @ chunk_evs)"
    by (intro exI)
qed

end
